theory Spec2Isabelle
  imports Main "HOL-Library.Multiset"
begin

section \<open>The external storage engine\<close>

text \<open>
  The program talks to SQLite through three library calls: \<open>sqlite3_open\<close>,
  \<open>sqlite3_exec\<close> and \<open>sqlite3_close\<close>. Their behaviour is not part of the
  program, so it is a parameter of the model: an arbitrary function of the call's
  arguments and of the number of earlier calls (which lets the engine's answers depend
  on its history). A non-null \<open>sqlite3*\<close> is a \<open>handle\<close>; the null pointer is
  \<open>None\<close>.
\<close>

type_synonym handle = nat

definition SQLITE_OK :: int where
  "SQLITE_OK = 0"

record sqlite =
  sqlite3_open :: "nat \<Rightarrow> string \<Rightarrow> int \<times> handle option \<times> string"
  sqlite3_exec :: "nat \<Rightarrow> handle \<Rightarrow> string \<Rightarrow> int \<times> string"

text \<open>
  \<open>sqlite3_open env k file\<close> is the answer to the \<open>k\<close>-th open: the return code, the
  pointer stored through the out-parameter and the text \<open>sqlite3_errmsg\<close> gives for it.
  \<open>sqlite3_exec env k h q\<close> is the answer to the \<open>k\<close>-th exec: the return code and the
  text stored in \<open>errMsg\<close>.

  What the program does to the outside is recorded in a \<open>world\<close>: the number of opens
  made, the exec and close calls in order, and what is written to the two streams, one
  entry for each output statement (the \<open>std::endl\<close> that ends each of them left out).
\<close>

datatype printed = Cerr string | Cout string

record world =
  open_calls :: nat
  exec_log :: "(handle \<times> string) list"
  close_log :: "handle list"
  out :: "printed list"

definition world0 :: world where
  "world0 = \<lparr>open_calls = 0, exec_log = [], close_log = [], out = []\<rparr>"

definition emit :: "printed \<Rightarrow> world \<Rightarrow> world" where
  "emit l w = w\<lparr>out := out w @ [l]\<rparr>"

section \<open>SQLiteDBConnection\<close>

text \<open>
  The class has two members. \<open>m_sqlMutex\<close> is never locked (the only use is commented
  out), so the state of an object is \<open>m_db\<close> alone.
\<close>

record SQLiteDBConnection =
  m_db :: "handle option"

text \<open>
  The constructor: \<open>m_db\<close> starts null, \<open>sqlite3_open\<close> writes the pointer, and a
  return code other than \<open>SQLITE_OK\<close> prints the engine's message and resets
  \<open>m_db\<close> to null.
\<close>

definition SQLiteDBConnection_new ::
  "sqlite \<Rightarrow> string \<Rightarrow> world \<Rightarrow> SQLiteDBConnection \<times> world" where
  "SQLiteDBConnection_new env dbFile w =
     (case sqlite3_open env (open_calls w) dbFile of (rc, db, msg) \<Rightarrow>
        let w1 = w\<lparr>open_calls := Suc (open_calls w)\<rparr> in
        if rc \<noteq> SQLITE_OK
        then (\<lparr>m_db = None\<rparr>, emit (Cerr (''Failed to open database: '' @ msg)) w1)
        else (\<lparr>m_db = db\<rparr>, w1))"

definition SQLiteDBConnection_delete :: "SQLiteDBConnection \<Rightarrow> world \<Rightarrow> world" where
  "SQLiteDBConnection_delete c w =
     (case m_db c of
        Some h \<Rightarrow> w\<lparr>close_log := close_log w @ [h]\<rparr>
      | None \<Rightarrow> w)"

definition isConnected :: "SQLiteDBConnection \<Rightarrow> bool" where
  "isConnected c = (m_db c \<noteq> None)"

text \<open>
  \<open>executeQuery\<close> is not \<open>const\<close>, so the model returns the object as well as the
  \<open>bool\<close> and the world. The \<open>bool\<close> is all the caller receives. Past the test of
  \<open>isConnected\<close> the pointer \<open>m_db\<close> is not null, so the inner case \<open>None\<close> is never
  taken.
\<close>

definition executeQuery ::
  "sqlite \<Rightarrow> SQLiteDBConnection \<Rightarrow> string \<Rightarrow> world \<Rightarrow> bool \<times> SQLiteDBConnection \<times> world" where
  "executeQuery env c query w =
     (if \<not> isConnected c
      then (False, c, emit (Cerr ''Not connected to database.'') w)
      else
        (case m_db c of
           None \<Rightarrow> (False, c, w)
         | Some h \<Rightarrow>
             (case sqlite3_exec env (length (exec_log w)) h query of (rc, errMsg) \<Rightarrow>
                let w1 = w\<lparr>exec_log := exec_log w @ [(h, query)]\<rparr> in
                if rc \<noteq> SQLITE_OK
                then (False, c, emit (Cerr (''SQL error: '' @ errMsg)) w1)
                else (True, c, emit (Cout ''successful \<newline>'') w1))))"

section \<open>Objects behind shared pointers\<close>

text \<open>
  The pool stores \<open>std::shared_ptr<SQLiteDBConnection>\<close>: two pointers are the same
  Resource when they are the same address, whatever the objects hold. So the objects
  live in a store, a map from addresses to objects, and \<open>std::make_shared\<close> takes the
  next address of a counter that only grows (an address is never handed out twice,
  which is more than the allocator promises and is what keeps live objects apart).
\<close>

type_synonym addr = nat

record ConnectionPool =
  m_dbFile :: string
  m_poolSize :: nat
  m_connections :: "addr list"

text \<open>
  \<open>m_poolSize\<close> is a \<open>size_t\<close>; the loop counter of \<open>initializePool\<close> stays below it,
  so \<open>++i\<close> never wraps and both are natural numbers here. \<open>m_connections\<close> is a
  \<open>std::queue\<close>: \<open>front\<close> is the head of the list, \<open>pop\<close> drops the head, \<open>push\<close>
  appends at the end. \<open>m_mutex\<close> and \<open>m_condVar\<close> appear in the model of threads
  further down.
\<close>

record pstate =
  objs :: "addr \<rightharpoonup> SQLiteDBConnection"
  brk :: addr
  pool :: ConnectionPool
  wld :: world

fun to_string :: "nat \<Rightarrow> string" where
  "to_string n =
     (if n < 10 then [char_of (48 + n)]
      else to_string (n div 10) @ [char_of (48 + n mod 10)])"

declare to_string.simps [simp del]

definition push :: "addr \<Rightarrow> pstate \<Rightarrow> pstate" where
  "push a s = s\<lparr>pool := (pool s)\<lparr>m_connections := m_connections (pool s) @ [a]\<rparr>\<rparr>"

text \<open>
  One iteration of the loop of \<open>initializePool\<close>, for the counter value \<open>i\<close>. In the
  \<open>else\<close> branch the only pointer to the object goes out of scope at the end of the
  iteration, after the message: the destructor runs and the object is gone.
\<close>

definition initializePool_body :: "sqlite \<Rightarrow> nat \<Rightarrow> pstate \<Rightarrow> pstate" where
  "initializePool_body env i s =
     (case SQLiteDBConnection_new env (m_dbFile (pool s)) (wld s) of (c, w1) \<Rightarrow>
        let connection = brk s;
            s1 = s\<lparr>objs := (objs s)(connection \<mapsto> c), brk := Suc (brk s), wld := w1\<rparr>
        in
        if isConnected c
        then push connection s1
        else s1\<lparr>objs := (objs s1)(connection := None),
                wld := SQLiteDBConnection_delete c
                         (emit (Cerr (''Failed to create connection '' @ to_string i)) w1)\<rparr>)"

function initializePool_loop :: "sqlite \<Rightarrow> nat \<Rightarrow> pstate \<Rightarrow> pstate" where
  "initializePool_loop env i s =
     (if i < m_poolSize (pool s)
      then initializePool_loop env (Suc i) (initializePool_body env i s)
      else s)"
  by pat_completeness auto
termination
  by (relation "measure (\<lambda>(env, i, s). m_poolSize (pool s) - i)")
     (auto simp: initializePool_body_def push_def Let_def split: prod.splits)

declare initializePool_loop.simps [simp del]

definition initializePool :: "sqlite \<Rightarrow> pstate \<Rightarrow> pstate" where
  "initializePool env s = initializePool_loop env 0 s"

text \<open>
  The constructor of the pool, run in a program state \<open>s\<close> (the store and the world as
  they are; the pool field is the object under construction).
\<close>

definition ConnectionPool_new :: "sqlite \<Rightarrow> string \<Rightarrow> nat \<Rightarrow> pstate \<Rightarrow> pstate" where
  "ConnectionPool_new env dbFile poolSize s =
     initializePool env
       (s\<lparr>pool := \<lparr>m_dbFile = dbFile, m_poolSize = poolSize, m_connections = []\<rparr>\<rparr>)"

definition start :: pstate where
  "start = \<lparr>objs = Map.empty, brk = 0,
            pool = \<lparr>m_dbFile = [], m_poolSize = 0, m_connections = []\<rparr>,
            wld = world0\<rparr>"

subsection \<open>One thread alone\<close>

text \<open>
  With a single thread the lock is always free and nobody else changes the queue. The
  loop \<open>while (m_connections.empty()) m_condVar.wait(lock)\<close> then leaves the state as it
  is on every round: whether \<open>wait\<close> returns (a spurious wake-up) or not, the thread
  never gets past an empty queue. Not returning is the value \<open>None\<close>. After the loop
  the queue is not empty, so \<open>front\<close> and \<open>pop\<close> are defined (the case \<open>[]\<close> below is
  never taken).
\<close>

partial_function (option) getConnection_wait :: "pstate \<Rightarrow> pstate option" where
  "getConnection_wait s =
     (if m_connections (pool s) = [] then getConnection_wait s else Some s)"

definition getConnection :: "pstate \<Rightarrow> (addr \<times> pstate) option" where
  "getConnection s =
     (case getConnection_wait s of
        None \<Rightarrow> None
      | Some s1 \<Rightarrow>
          (case m_connections (pool s1) of
             [] \<Rightarrow> None
           | connection # rest \<Rightarrow>
               Some (connection,
                     s1\<lparr>pool := (pool s1)\<lparr>m_connections := rest\<rparr>,
                        wld := emit (Cout ''get connection successful \<newline>'') (wld s1)\<rparr>)))"

definition releaseConnection :: "addr \<Rightarrow> pstate \<Rightarrow> pstate" where
  "releaseConnection connection s = push connection s"

text \<open>
  \<open>connection->executeQuery(query)\<close> through a pointer: the object is looked up in the
  store (a pointer to no object has no defined behaviour: \<open>None\<close>).
\<close>

definition call_executeQuery ::
  "sqlite \<Rightarrow> addr \<Rightarrow> string \<Rightarrow> pstate \<Rightarrow> (bool \<times> pstate) option" where
  "call_executeQuery env connection query s =
     (case objs s connection of
        None \<Rightarrow> None
      | Some c \<Rightarrow>
          (case executeQuery env c query (wld s) of (ok, c', w') \<Rightarrow>
             Some (ok, s\<lparr>objs := (objs s)(connection \<mapsto> c'), wld := w'\<rparr>)))"

text \<open>A caller's sequence of pool operations, and the Resources it is handed.\<close>

datatype op = Acquire | Release addr

fun run_ops :: "pstate \<Rightarrow> op list \<Rightarrow> (addr list \<times> pstate) option" where
  "run_ops s [] = Some ([], s)"
| "run_ops s (Acquire # ops) =
     (case getConnection s of
        None \<Rightarrow> None
      | Some (a, s1) \<Rightarrow>
          (case run_ops s1 ops of
             None \<Rightarrow> None
           | Some (got, s2) \<Rightarrow> Some (a # got, s2)))"
| "run_ops s (Release a # ops) = run_ops (releaseConnection a s) ops"

fun released :: "op list \<Rightarrow> addr list" where
  "released [] = []"
| "released (Acquire # ops) = released ops"
| "released (Release a # ops) = a # released ops"

text \<open>
  How many Resources a sequence asks for, and whether a queue of \<open>k\<close> Resources lasts
  through it: no acquire finds the queue empty.
\<close>

fun acquires :: "op list \<Rightarrow> nat" where
  "acquires [] = 0"
| "acquires (Acquire # ops) = Suc (acquires ops)"
| "acquires (Release a # ops) = acquires ops"

fun enough :: "nat \<Rightarrow> op list \<Rightarrow> bool" where
  "enough k [] = True"
| "enough k (Acquire # ops) = (0 < k \<and> enough (k - 1) ops)"
| "enough k (Release a # ops) = enough (Suc k) ops"

text \<open>Acquire, then release what was acquired; and that, \<open>n\<close> times.\<close>

definition acquire_release :: "pstate \<Rightarrow> pstate option" where
  "acquire_release s =
     (case getConnection s of
        None \<Rightarrow> None
      | Some (a, s1) \<Rightarrow> Some (releaseConnection a s1))"

fun round_trips :: "nat \<Rightarrow> pstate \<Rightarrow> pstate option" where
  "round_trips 0 s = Some s"
| "round_trips (Suc n) s =
     (case acquire_release s of
        None \<Rightarrow> None
      | Some s1 \<Rightarrow> round_trips n s1)"

section \<open>Threads\<close>

text \<open>
  Several threads call \<open>getConnection\<close> and \<open>releaseConnection\<close> on one pool. A thread
  is at one of the statements of these two functions, or outside them (\<open>Idle\<close>, in the
  caller's code). The labels follow the source:
  \<^item> \<open>G_lock\<close>: line 77, the constructor of \<open>lock\<close>, which waits for \<open>m_mutex\<close>;
  \<^item> \<open>G_while\<close>: line 79, the test \<open>m_connections.empty()\<close>, with the mutex held;
  \<^item> \<open>G_wait\<close>: line 81, inside \<open>m_condVar.wait(lock)\<close>: the mutex is released and the
    thread is blocked on the condition variable;
  \<^item> \<open>G_wake\<close>: line 81, unblocked (notified, or woken spuriously), waiting to lock the
    mutex again before \<open>wait\<close> returns;
  \<^item> \<open>G_front\<close>: line 84, \<open>m_connections.front()\<close>;
  \<^item> \<open>G_pop a\<close>: lines 85 and 86, \<open>m_connections.pop()\<close>, with \<open>connection = a\<close>;
  \<^item> \<open>G_return a\<close>: line 87: \<open>lock\<close> is destroyed, the mutex released, \<open>a\<close> returned;
  \<^item> \<open>R_lock a\<close>: line 92, waiting for the mutex, with the argument \<open>a\<close>;
  \<^item> \<open>R_push a\<close>: line 93, \<open>m_connections.push(connection)\<close>;
  \<^item> \<open>R_notify\<close>: line 94, \<open>m_condVar.notify_one()\<close>;
  \<^item> \<open>R_return\<close>: line 95: the mutex is released.

  \<open>held\<close> is what the caller has in hand: the Resources \<open>getConnection\<close> returned to it
  that it has not passed to \<open>releaseConnection\<close> since.
\<close>

type_synonym tid = nat

datatype pc =
    Idle
  | G_lock | G_while | G_wait | G_wake | G_front | G_pop addr | G_return addr
  | R_lock addr | R_push addr | R_notify | R_return

record thread =
  pc :: pc
  held :: "addr list"

record cstate =
  queue :: "addr list"
  mutex :: "tid option"
  threads :: "thread list"
  ub :: bool

text \<open>
  \<open>ub\<close> is set when \<open>front\<close> or \<open>pop\<close> is called on an empty queue, which has no
  defined behaviour; nothing runs after that.

  The scheduler's choices are events: a caller enters one of the two functions, a
  thread executes its next statement, a blocked thread wakes spuriously, and
  \<open>notify_one\<close> picks the waiter it unblocks (\<open>None\<close>: when there is none).
\<close>

datatype event =
    Call_get tid
  | Call_release tid addr
  | Run tid
  | Notify_one tid "tid option"
  | Spurious tid

definition at :: "cstate \<Rightarrow> tid \<Rightarrow> pc" where
  "at s t = pc (threads s ! t)"

definition goto :: "tid \<Rightarrow> pc \<Rightarrow> cstate \<Rightarrow> cstate" where
  "goto t l s = s\<lparr>threads := (threads s)[t := (threads s ! t)\<lparr>pc := l\<rparr>]\<rparr>"

definition give :: "tid \<Rightarrow> addr \<Rightarrow> cstate \<Rightarrow> cstate" where
  "give t a s =
     s\<lparr>threads := (threads s)[t := (threads s ! t)\<lparr>held := held (threads s ! t) @ [a]\<rparr>]\<rparr>"

definition take_from :: "tid \<Rightarrow> addr \<Rightarrow> cstate \<Rightarrow> cstate" where
  "take_from t a s =
     s\<lparr>threads := (threads s)[t := (threads s ! t)\<lparr>held := remove1 a (held (threads s ! t))\<rparr>]\<rparr>"

definition waiting :: "cstate \<Rightarrow> tid list" where
  "waiting s = filter (\<lambda>u. at s u = G_wait) [0..<length (threads s)]"

definition run_thread :: "tid \<Rightarrow> cstate \<Rightarrow> cstate option" where
  "run_thread t s =
     (case at s t of
        Idle \<Rightarrow> None
      | G_lock \<Rightarrow>
          if mutex s = None then Some (goto t G_while (s\<lparr>mutex := Some t\<rparr>)) else None
      | G_while \<Rightarrow>
          if queue s = [] then Some (goto t G_wait (s\<lparr>mutex := None\<rparr>))
          else Some (goto t G_front s)
      | G_wait \<Rightarrow> None
      | G_wake \<Rightarrow>
          if mutex s = None then Some (goto t G_while (s\<lparr>mutex := Some t\<rparr>)) else None
      | G_front \<Rightarrow>
          (case queue s of
             [] \<Rightarrow> Some (s\<lparr>ub := True\<rparr>)
           | a # rest \<Rightarrow> Some (goto t (G_pop a) s))
      | G_pop a \<Rightarrow>
          (case queue s of
             [] \<Rightarrow> Some (s\<lparr>ub := True\<rparr>)
           | b # rest \<Rightarrow> Some (goto t (G_return a) (s\<lparr>queue := rest\<rparr>)))
      | G_return a \<Rightarrow> Some (give t a (goto t Idle (s\<lparr>mutex := None\<rparr>)))
      | R_lock a \<Rightarrow>
          if mutex s = None then Some (goto t (R_push a) (s\<lparr>mutex := Some t\<rparr>)) else None
      | R_push a \<Rightarrow> Some (goto t R_notify (s\<lparr>queue := queue s @ [a]\<rparr>))
      | R_notify \<Rightarrow> None
      | R_return \<Rightarrow> Some (goto t Idle (s\<lparr>mutex := None\<rparr>)))"

definition step :: "cstate \<Rightarrow> event \<Rightarrow> cstate option" where
  "step s e =
     (if ub s then None
      else
        (case e of
           Call_get t \<Rightarrow>
             if t < length (threads s) \<and> at s t = Idle then Some (goto t G_lock s) else None
         | Call_release t a \<Rightarrow>
             if t < length (threads s) \<and> at s t = Idle
             then Some (goto t (R_lock a) (take_from t a s))
             else None
         | Run t \<Rightarrow> if t < length (threads s) then run_thread t s else None
         | Notify_one t w \<Rightarrow>
             if t < length (threads s) \<and> at s t = R_notify
             then (case w of
                     None \<Rightarrow> if waiting s = [] then Some (goto t R_return s) else None
                   | Some u \<Rightarrow>
                       if u \<in> set (waiting s) then Some (goto t R_return (goto u G_wake s))
                       else None)
             else None
         | Spurious t \<Rightarrow>
             if t < length (threads s) \<and> at s t = G_wait then Some (goto t G_wake s)
             else None))"

fun run :: "cstate \<Rightarrow> event list \<Rightarrow> cstate option" where
  "run s [] = Some s"
| "run s (e # es) = (case step s e of None \<Rightarrow> None | Some s1 \<Rightarrow> run s1 es)"

text \<open>
  The pool as its constructor leaves it, with \<open>n\<close> threads that have not called it yet.
\<close>

definition cinit :: "addr list \<Rightarrow> nat \<Rightarrow> cstate" where
  "cinit q n =
     \<lparr>queue = q, mutex = None, threads = replicate n \<lparr>pc = Idle, held = []\<rparr>, ub = False\<rparr>"

text \<open>
  What a thread has taken out of the queue and not put back: what its caller holds,
  and the Resource in flight inside one of the two functions (popped and not yet
  returned, or passed in and not yet pushed).
\<close>

fun in_flight :: "pc \<Rightarrow> addr list" where
  "in_flight (G_return a) = [a]"
| "in_flight (R_lock a) = [a]"
| "in_flight (R_push a) = [a]"
| "in_flight _ = []"

definition owned :: "thread \<Rightarrow> addr list" where
  "owned th = held th @ in_flight (pc th)"

definition checked_out :: "cstate \<Rightarrow> addr list" where
  "checked_out s = concat (map owned (threads s))"

definition available_count :: "cstate \<Rightarrow> nat" where
  "available_count s = length (queue s)"

definition checked_out_count :: "cstate \<Rightarrow> nat" where
  "checked_out_count s = length (checked_out s)"

text \<open>
  The caller's side of the contract of \<open>releaseConnection\<close>: the argument is a Resource
  the calling thread holds. The function itself takes any pointer.
\<close>

fun permitted :: "cstate \<Rightarrow> event \<Rightarrow> bool" where
  "permitted s (Call_release t a) = (t < length (threads s) \<and> a \<in> set (held (threads s ! t)))"
| "permitted s _ = True"

fun disciplined :: "cstate \<Rightarrow> event list \<Rightarrow> bool" where
  "disciplined s [] = True"
| "disciplined s (e # es) =
     (permitted s e \<and> (case step s e of None \<Rightarrow> True | Some s1 \<Rightarrow> disciplined s1 es))"

section \<open>Which opens succeed\<close>

text \<open>
  The \<open>k\<close>-th open succeeds when the object constructed by it answers \<open>isConnected\<close>
  with true. \<open>opened env dbFile k m\<close> lists the attempts, among \<open>m\<close> in a row starting
  with the \<open>k\<close>-th open, that succeed.
\<close>

definition open_ok :: "sqlite \<Rightarrow> nat \<Rightarrow> string \<Rightarrow> bool" where
  "open_ok env k dbFile =
     isConnected (fst (SQLiteDBConnection_new env dbFile (world0\<lparr>open_calls := k\<rparr>)))"

definition opened :: "sqlite \<Rightarrow> string \<Rightarrow> nat \<Rightarrow> nat \<Rightarrow> nat list" where
  "opened env dbFile k m = filter (\<lambda>j. open_ok env (k + j) dbFile) [0..<m]"

subsection \<open>Engines to run the definitions on\<close>

text \<open>
  An engine where everything succeeds, one where no database can be opened (the handle
  is still allocated, as SQLite does), one where every other open fails, and one that
  rejects every statement with a given message.
\<close>

definition sqlite_up :: sqlite where
  "sqlite_up =
     \<lparr>sqlite3_open = (\<lambda>k f. (SQLITE_OK, Some k, ''not an error'')),
      sqlite3_exec = (\<lambda>k h q. (SQLITE_OK, []))\<rparr>"

definition sqlite_down :: sqlite where
  "sqlite_down =
     \<lparr>sqlite3_open = (\<lambda>k f. (14, Some k, ''unable to open database file'')),
      sqlite3_exec = (\<lambda>k h q. (21, ''bad parameter or other API misuse''))\<rparr>"

definition sqlite_flaky :: sqlite where
  "sqlite_flaky =
     \<lparr>sqlite3_open = (\<lambda>k f. if even k then (SQLITE_OK, Some k, ''not an error'')
                              else (14, Some k, ''unable to open database file'')),
      sqlite3_exec = (\<lambda>k h q. (SQLITE_OK, []))\<rparr>"

definition sqlite_rejecting :: "string \<Rightarrow> sqlite" where
  "sqlite_rejecting msg =
     \<lparr>sqlite3_open = (\<lambda>k f. (SQLITE_OK, Some k, ''not an error'')),
      sqlite3_exec = (\<lambda>k h q. (1, msg))\<rparr>"

section \<open>Invariants of the thread model\<close>

text \<open>
  The statements at which a thread holds the mutex, and what a thread about to call
  \<open>front\<close> or \<open>pop\<close> needs of the queue.
\<close>

fun critical :: "pc \<Rightarrow> bool" where
  "critical Idle = False"
| "critical G_lock = False"
| "critical G_wait = False"
| "critical G_wake = False"
| "critical (R_lock a) = False"
| "critical _ = True"

fun needs :: "pc \<Rightarrow> addr list \<Rightarrow> bool" where
  "needs G_front q = (q \<noteq> [])"
| "needs (G_pop a) q = (q \<noteq> [] \<and> hd q = a)"
| "needs _ q = True"

definition thread_ok :: "cstate \<Rightarrow> tid \<Rightarrow> bool" where
  "thread_ok s t = ((critical (at s t) \<longleftrightarrow> mutex s = Some t) \<and> needs (at s t) (queue s))"

definition inv_lock :: "cstate \<Rightarrow> bool" where
  "inv_lock s = (\<not> ub s \<and> (\<forall>t<length (threads s). thread_ok s t))"

text \<open>
  Nothing is lost and nothing is doubled: the queue and what the threads have taken
  out, together, are the Resources of the initial queue \<open>q0\<close>, each as often as there.
\<close>

definition inv_own :: "addr list \<Rightarrow> cstate \<Rightarrow> bool" where
  "inv_own q0 s = (mset (queue s) + mset (checked_out s) = mset q0)"

subsection \<open>Schedules to run the model on\<close>

text \<open>
  A thread going through \<open>getConnection\<close> with no one in its way and a Resource
  available (call, lock, test, \<open>front\<close>, \<open>pop\<close>, return), and through
  \<open>releaseConnection\<close> with no waiter to notify (call, lock, \<open>push\<close>, \<open>notify_one\<close>,
  return). In \<open>both_acquire\<close> threads 0 and 1 are in \<open>getConnection\<close> at the same
  time: both have called before either returns, thread 0 gets the mutex first. In
  \<open>woken_for_nothing\<close> thread 1 takes the only Resource, thread 0 finds
  the queue empty, waits and is woken spuriously; in \<open>handed_over\<close> it then finds the
  queue empty again and waits, thread 1 releases and notifies it, and it gets as far
  as \<open>pop\<close>.
\<close>

definition acquire_events :: "tid \<Rightarrow> event list" where
  "acquire_events t = [Call_get t, Run t, Run t, Run t, Run t, Run t]"

definition release_events :: "tid \<Rightarrow> addr \<Rightarrow> event list" where
  "release_events t a = [Call_release t a, Run t, Run t, Notify_one t None, Run t]"

definition both_acquire :: "event list" where
  "both_acquire =
     [Call_get 0, Call_get 1, Run 0, Run 0, Run 0, Run 0, Run 0, Run 1, Run 1, Run 1, Run 1,
      Run 1]"

definition woken_for_nothing :: "event list" where
  "woken_for_nothing =
     acquire_events 1 @ [Call_get 0, Run 0, Run 0, Spurious 0]"

definition handed_over :: "event list" where
  "handed_over =
     woken_for_nothing @
     [Run 0, Run 0, Call_release 1 0, Run 1, Run 1, Notify_one 1 (Some 0), Run 1,
      Run 0, Run 0, Run 0]"

subsection \<open>A thread alone at an empty pool\<close>

text \<open>
  The states a single thread goes through when it calls \<open>getConnection\<close> on an empty
  queue and nobody releases: it has not called yet, waits for the mutex, tests the
  queue, waits on the condition variable, or has been woken.
\<close>

definition alone :: "pc \<Rightarrow> tid option \<Rightarrow> cstate" where
  "alone l m = \<lparr>queue = [], mutex = m, threads = [\<lparr>pc = l, held = []\<rparr>], ub = False\<rparr>"

definition blocked :: "cstate list" where
  "blocked =
     [alone Idle None, alone G_lock None, alone G_while (Some 0), alone G_wait None,
      alone G_wake None]"

fun is_release :: "event \<Rightarrow> bool" where
  "is_release (Call_release t a) = True"
| "is_release _ = False"

section \<open>Construction of the pool\<close>

lemma open_ok_iff:
  "open_ok env k dbFile =
     (case sqlite3_open env k dbFile of (rc, db, msg) \<Rightarrow> rc = SQLITE_OK \<and> db \<noteq> None)"
  by (simp add: open_ok_def SQLiteDBConnection_new_def isConnected_def Let_def
      split: prod.splits)

lemma new_connected:
  "isConnected (fst (SQLiteDBConnection_new env f w)) = open_ok env (open_calls w) f"
  by (simp add: SQLiteDBConnection_new_def open_ok_iff isConnected_def Let_def split: prod.splits)

lemma new_open_calls:
  "open_calls (snd (SQLiteDBConnection_new env f w)) = Suc (open_calls w)"
  by (simp add: SQLiteDBConnection_new_def emit_def Let_def split: prod.splits)

lemma body_pool:
  "pool (initializePool_body env i s) =
     (pool s)\<lparr>m_connections := m_connections (pool s) @
        (if open_ok env (open_calls (wld s)) (m_dbFile (pool s)) then [brk s] else [])\<rparr>"
  using new_connected[of env "m_dbFile (pool s)" "wld s"]
  by (auto simp: initializePool_body_def push_def Let_def split: prod.splits)

lemma body_brk: "brk (initializePool_body env i s) = Suc (brk s)"
  by (auto simp: initializePool_body_def push_def Let_def split: prod.splits)

lemma body_open_calls:
  "open_calls (wld (initializePool_body env i s)) = Suc (open_calls (wld s))"
  using new_open_calls[of env "m_dbFile (pool s)" "wld s"]
  by (auto simp: initializePool_body_def push_def Let_def emit_def SQLiteDBConnection_delete_def
      split: prod.splits option.splits)

lemma body_objs:
  "objs (initializePool_body env i s) =
     (objs s)(brk s :=
        (if open_ok env (open_calls (wld s)) (m_dbFile (pool s))
         then Some (fst (SQLiteDBConnection_new env (m_dbFile (pool s)) (wld s)))
         else None))"
  using new_connected[of env "m_dbFile (pool s)" "wld s"]
  by (auto simp: initializePool_body_def push_def Let_def split: prod.splits)

lemma opened_Suc:
  "opened env f k (Suc m) =
     (if open_ok env k f then [0] else []) @ map Suc (opened env f (Suc k) m)"
proof -
  have "[0..<Suc m] = 0 # map Suc [0..<m]"
    by (simp add: upt_conv_Cons map_Suc_upt del: upt_Suc)
  then show ?thesis
    by (simp add: opened_def filter_map comp_def del: upt_Suc)
qed

lemma loop_pool:
  "i \<le> m_poolSize (pool s) \<Longrightarrow>
   pool (initializePool_loop env i s) =
     (pool s)\<lparr>m_connections := m_connections (pool s) @
        map (\<lambda>j. brk s + j)
          (opened env (m_dbFile (pool s)) (open_calls (wld s)) (m_poolSize (pool s) - i))\<rparr>"
proof (induction env i s rule: initializePool_loop.induct)
  case (1 env i s)
  show ?case
  proof (cases "i < m_poolSize (pool s)")
    case True
    then have d: "m_poolSize (pool s) - i = Suc (m_poolSize (pool s) - Suc i)" by simp
    from True have "Suc i \<le> m_poolSize (pool (initializePool_body env i s))"
      by (simp add: body_pool)
    from "1.IH"[OF True this] show ?thesis
      using True
      apply (subst initializePool_loop.simps)
      apply (simp only: d opened_Suc)
      apply (simp add: body_pool body_brk body_open_calls comp_def)
      done
  next
    case False
    with "1.prems" show ?thesis
      by (subst initializePool_loop.simps) (simp add: opened_def)
  qed
qed

lemma loop_open_calls:
  "i \<le> m_poolSize (pool s) \<Longrightarrow>
   open_calls (wld (initializePool_loop env i s)) = open_calls (wld s) + (m_poolSize (pool s) - i)"
proof (induction env i s rule: initializePool_loop.induct)
  case (1 env i s)
  show ?case
  proof (cases "i < m_poolSize (pool s)")
    case True
    from True have "Suc i \<le> m_poolSize (pool (initializePool_body env i s))"
      by (simp add: body_pool)
    from "1.IH"[OF True this] True show ?thesis
      by (subst initializePool_loop.simps) (simp add: body_pool body_open_calls)
  next
    case False
    with "1.prems" show ?thesis
      by (subst initializePool_loop.simps) simp
  qed
qed

lemma loop_objs_old:
  "a < brk s \<Longrightarrow> objs (initializePool_loop env i s) a = objs s a"
proof (induction env i s rule: initializePool_loop.induct)
  case (1 env i s)
  show ?case
  proof (cases "i < m_poolSize (pool s)")
    case True
    from "1.prems" have "a < brk (initializePool_body env i s)"
      by (simp add: body_brk)
    from "1.IH"[OF True this] True "1.prems" show ?thesis
      by (subst initializePool_loop.simps) (simp add: body_objs)
  next
    case False
    then show ?thesis
      by (subst initializePool_loop.simps) simp
  qed
qed

lemma loop_objs_new:
  "i \<le> m_poolSize (pool s) \<Longrightarrow> j < m_poolSize (pool s) - i \<Longrightarrow>
   (open_ok env (open_calls (wld s) + j) (m_dbFile (pool s)) \<longrightarrow>
      (\<exists>c. objs (initializePool_loop env i s) (brk s + j) = Some c \<and> isConnected c)) \<and>
   (\<not> open_ok env (open_calls (wld s) + j) (m_dbFile (pool s)) \<longrightarrow>
      objs (initializePool_loop env i s) (brk s + j) = None)"
proof (induction env i s arbitrary: j rule: initializePool_loop.induct)
  case (1 env i s)
  from "1.prems" have lt: "i < m_poolSize (pool s)" by simp
  let ?b = "initializePool_body env i s"
  have unf: "initializePool_loop env i s = initializePool_loop env (Suc i) ?b"
    using lt by (subst initializePool_loop.simps) simp
  show ?case
  proof (cases j)
    case 0
    have "objs (initializePool_loop env (Suc i) ?b) (brk s) = objs ?b (brk s)"
      by (rule loop_objs_old) (simp add: body_brk)
    then show ?thesis
      using 0 unf new_connected[of env "m_dbFile (pool s)" "wld s"]
      by (simp add: body_objs)
  next
    case (Suc j')
    have le: "Suc i \<le> m_poolSize (pool ?b)"
      using lt by (simp add: body_pool)
    have j': "j' < m_poolSize (pool ?b) - Suc i"
      using "1.prems" Suc by (simp add: body_pool)
    from "1.IH"[OF lt le j'] show ?thesis
      using Suc unf by (simp add: body_pool body_brk body_open_calls)
  qed
qed

section \<open>The two operations, one thread alone\<close>

lemma getConnection_wait_Some:
  assumes "getConnection_wait s = Some r"
  shows "m_connections (pool s) \<noteq> [] \<and> r = s"
  by (rule getConnection_wait.raw_induct
        [where P = "\<lambda>s r. m_connections (pool s) \<noteq> [] \<and> r = s", OF _ assms])
     (simp split: if_splits)

lemma getConnection_wait_nonempty:
  "m_connections (pool s) \<noteq> [] \<Longrightarrow> getConnection_wait s = Some s"
  by (subst getConnection_wait.simps) simp

lemma getConnection_wait_empty:
  "m_connections (pool s) = [] \<Longrightarrow> getConnection_wait s = None"
  using getConnection_wait_Some[of s] by (cases "getConnection_wait s") auto

lemma getConnection_empty:
  "m_connections (pool s) = [] \<Longrightarrow> getConnection s = None"
  by (simp add: getConnection_def getConnection_wait_empty)

lemma getConnection_Cons:
  "m_connections (pool s) = a # q \<Longrightarrow>
   getConnection s =
     Some (a, s\<lparr>pool := (pool s)\<lparr>m_connections := q\<rparr>,
                wld := emit (Cout ''get connection successful \<newline>'') (wld s)\<rparr>)"
  by (simp add: getConnection_def getConnection_wait_nonempty)

lemma releaseConnection_queue:
  "m_connections (pool (releaseConnection a s)) = m_connections (pool s) @ [a]"
  by (simp add: releaseConnection_def push_def)

section \<open>What the constructor leaves\<close>

lemma loop_brk:
  "i \<le> m_poolSize (pool s) \<Longrightarrow>
   brk (initializePool_loop env i s) = brk s + (m_poolSize (pool s) - i)"
proof (induction env i s rule: initializePool_loop.induct)
  case (1 env i s)
  show ?case
  proof (cases "i < m_poolSize (pool s)")
    case True
    from True have "Suc i \<le> m_poolSize (pool (initializePool_body env i s))"
      by (simp add: body_pool)
    from "1.IH"[OF True this] True show ?thesis
      by (subst initializePool_loop.simps) (simp add: body_pool body_brk)
  next
    case False
    with "1.prems" show ?thesis
      by (subst initializePool_loop.simps) simp
  qed
qed

lemma new_queue:
  "m_connections (pool (ConnectionPool_new env dbFile poolSize s)) =
     map (\<lambda>j. brk s + j) (opened env dbFile (open_calls (wld s)) poolSize)"
  by (simp add: ConnectionPool_new_def initializePool_def loop_pool)

lemma new_distinct:
  "distinct (m_connections (pool (ConnectionPool_new env dbFile poolSize s)))"
  by (simp add: new_queue opened_def distinct_map inj_on_def)

lemma new_length:
  "length (m_connections (pool (ConnectionPool_new env dbFile poolSize s))) \<le> poolSize"
  using length_filter_le[of "\<lambda>j. open_ok env (open_calls (wld s) + j) dbFile" "[0..<poolSize]"]
  by (simp add: new_queue opened_def)

text \<open>
  C3. The constructor makes exactly \<open>poolSize\<close> calls of \<open>sqlite3_open\<close>, one after the
  other, all on \<open>dbFile\<close>. The queue it leaves holds, in order, the objects of the
  attempts that succeeded, each in the store and connected; the objects of the attempts
  that failed are gone from the store. No attempt's failure stops the constructor (it
  has no error result), the queue is never longer than \<open>poolSize\<close>, and when no open
  succeeded the pool is there all the same, with an empty queue: \<open>getConnection\<close> on it
  does not return, and after a \<open>releaseConnection\<close> it does.
\<close>

theorem ConnectionPool_new_opens:
  fixes env dbFile poolSize s
  defines "s' \<equiv> ConnectionPool_new env dbFile poolSize s"
  shows "open_calls (wld s') = open_calls (wld s) + poolSize \<and>
     m_connections (pool s') =
       map (\<lambda>j. brk s + j) (opened env dbFile (open_calls (wld s)) poolSize) \<and>
     (\<forall>j<poolSize.
        if open_ok env (open_calls (wld s) + j) dbFile
        then \<exists>c. objs s' (brk s + j) = Some c \<and> isConnected c
        else objs s' (brk s + j) = None) \<and>
     length (m_connections (pool s')) \<le> poolSize \<and>
     (opened env dbFile (open_calls (wld s)) poolSize = [] \<longrightarrow>
        m_connections (pool s') = [] \<and> getConnection s' = None \<and>
        (\<forall>a. \<exists>s2. getConnection (releaseConnection a s') = Some (a, s2)))"
proof -
  let ?s0 = "s\<lparr>pool := \<lparr>m_dbFile = dbFile, m_poolSize = poolSize, m_connections = []\<rparr>\<rparr>"
  have s': "s' = initializePool_loop env 0 ?s0"
    by (simp add: s'_def ConnectionPool_new_def initializePool_def)
  have a: "open_calls (wld s') = open_calls (wld s) + poolSize"
    by (simp add: s' loop_open_calls)
  have b: "m_connections (pool s') =
       map (\<lambda>j. brk s + j) (opened env dbFile (open_calls (wld s)) poolSize)"
    by (simp add: s'_def new_queue)
  have c: "\<forall>j<poolSize.
        if open_ok env (open_calls (wld s) + j) dbFile
        then \<exists>c. objs s' (brk s + j) = Some c \<and> isConnected c
        else objs s' (brk s + j) = None"
  proof (intro allI impI)
    fix j assume "j < poolSize"
    then show "if open_ok env (open_calls (wld s) + j) dbFile
        then \<exists>c. objs s' (brk s + j) = Some c \<and> isConnected c
        else objs s' (brk s + j) = None"
      using loop_objs_new[of 0 ?s0 j env] by (simp add: s')
  qed
  have d: "length (m_connections (pool s')) \<le> poolSize"
    by (simp add: s'_def new_length)
  have e: "opened env dbFile (open_calls (wld s)) poolSize = [] \<longrightarrow>
        m_connections (pool s') = [] \<and> getConnection s' = None \<and>
        (\<forall>a. \<exists>s2. getConnection (releaseConnection a s') = Some (a, s2))"
  proof
    assume "opened env dbFile (open_calls (wld s)) poolSize = []"
    with b have q: "m_connections (pool s') = []" by simp
    then have "m_connections (pool (releaseConnection a s')) = [a]" for a
      by (simp add: releaseConnection_queue)
    from getConnection_Cons[OF this] q
    show "m_connections (pool s') = [] \<and> getConnection s' = None \<and>
        (\<forall>a. \<exists>s2. getConnection (releaseConnection a s') = Some (a, s2))"
      by (simp add: getConnection_empty)
  qed
  from a b c d e show ?thesis by blast
qed

lemma opened_flaky: "opened sqlite_flaky ''test.db'' 0 3 = [0, 2]"
  by (simp add: opened_def open_ok_iff sqlite_flaky_def SQLITE_OK_def upt_conv_Cons)

theorem ConnectionPool_new_opens_witness:
  "open_calls (wld (ConnectionPool_new sqlite_flaky ''test.db'' 3 start)) = 3 \<and>
   m_connections (pool (ConnectionPool_new sqlite_flaky ''test.db'' 3 start)) = [0, 2] \<and>
   (\<exists>c. objs (ConnectionPool_new sqlite_flaky ''test.db'' 3 start) 2 = Some c \<and> isConnected c) \<and>
   objs (ConnectionPool_new sqlite_flaky ''test.db'' 3 start) 1 = None \<and>
   opened sqlite_down ''test.db'' 0 3 = [] \<and>
   getConnection (ConnectionPool_new sqlite_down ''test.db'' 3 start) = None"
proof -
  have o: "open_calls (wld start) = 0" "brk start = 0"
    by (simp_all add: start_def world0_def)
  have ok: "open_ok sqlite_flaky (open_calls (wld start) + 2) ''test.db''"
    "\<not> open_ok sqlite_flaky (open_calls (wld start) + 1) ''test.db''"
    by (simp_all add: o open_ok_iff sqlite_flaky_def SQLITE_OK_def)
  have lt: "2 < (3::nat)" "1 < (3::nat)"
    by simp_all
  have dn: "opened sqlite_down ''test.db'' 0 3 = []"
    by (simp add: opened_def open_ok_iff sqlite_down_def SQLITE_OK_def)
  note t = ConnectionPool_new_opens[of sqlite_flaky "''test.db''" 3 start]
  note u = ConnectionPool_new_opens[of sqlite_down "''test.db''" 3 start]
  from t have 1: "open_calls (wld (ConnectionPool_new sqlite_flaky ''test.db'' 3 start)) = 3"
    by (simp add: o)
  from t have 2: "m_connections (pool (ConnectionPool_new sqlite_flaky ''test.db'' 3 start)) = [0, 2]"
    by (simp add: o opened_flaky)
  from t have x: "\<forall>j<3.
        if open_ok sqlite_flaky (open_calls (wld start) + j) ''test.db''
        then \<exists>c. objs (ConnectionPool_new sqlite_flaky ''test.db'' 3 start) (brk start + j) = Some c \<and> isConnected c
        else objs (ConnectionPool_new sqlite_flaky ''test.db'' 3 start) (brk start + j) = None"
    by blast
  from x[rule_format, OF lt(1)]
  have "\<exists>c. objs (ConnectionPool_new sqlite_flaky ''test.db'' 3 start) (brk start + 2) = Some c \<and> isConnected c"
    by (simp only: ok if_True)
  then have 3: "(\<exists>c. objs (ConnectionPool_new sqlite_flaky ''test.db'' 3 start) 2 = Some c \<and> isConnected c)"
    by (simp only: o add.left_neutral)
  from x[rule_format, OF lt(2)]
  have "objs (ConnectionPool_new sqlite_flaky ''test.db'' 3 start) (brk start + 1) = None"
    by (simp only: ok if_False)
  then have 4: "objs (ConnectionPool_new sqlite_flaky ''test.db'' 3 start) 1 = None"
    by (simp only: o add.left_neutral)
  from u dn have 5: "getConnection (ConnectionPool_new sqlite_down ''test.db'' 3 start) = None"
    by (simp add: o)
  from 1 2 3 4 dn 5 show ?thesis by blast
qed

section \<open>Executing a statement\<close>

text \<open>
  C4. On an object that is not connected, \<open>executeQuery\<close> returns \<open>false\<close> for every
  statement and does nothing else than write \<open>Not connected to database.\<close> to
  \<open>std::cerr\<close>: \<open>sqlite3_exec\<close> is not called (the log of exec calls is as before) and
  the object is as before.
\<close>

theorem executeQuery_not_connected:
  "\<not> isConnected c \<Longrightarrow>
   executeQuery env c query w =
     (False, c, w\<lparr>out := out w @ [Cerr ''Not connected to database.'']\<rparr>) \<and>
   exec_log (snd (snd (executeQuery env c query w))) = exec_log w"
  by (simp add: executeQuery_def emit_def)

theorem executeQuery_not_connected_witness:
  "\<not> isConnected (fst (SQLiteDBConnection_new sqlite_down ''test.db'' world0)) \<and>
   fst (executeQuery sqlite_up (fst (SQLiteDBConnection_new sqlite_down ''test.db'' world0))
          ''SELECT 1;'' world0) = False \<and>
   exec_log (snd (snd (executeQuery sqlite_up
          (fst (SQLiteDBConnection_new sqlite_down ''test.db'' world0)) ''SELECT 1;'' world0))) = []"
proof -
  have d: "\<not> isConnected (fst (SQLiteDBConnection_new sqlite_down ''test.db'' world0))"
    by (simp add: SQLiteDBConnection_new_def sqlite_down_def SQLITE_OK_def isConnected_def)
  from executeQuery_not_connected[OF d, of sqlite_up "''SELECT 1;''" world0] d
  show ?thesis
    by (simp add: world0_def)
qed

text \<open>
  C5, as stated: the caller would receive the engine's message with the failure. What
  \<open>executeQuery\<close> returns is a \<open>bool\<close>, and it is the same \<open>false\<close> for two rejections
  with different messages.
\<close>

theorem executeQuery_message_counterexample:
  "fst (executeQuery (sqlite_rejecting ''no such table: test_table'') \<lparr>m_db = Some 0\<rparr>
          ''DELETE FROM test_table;'' world0) = False \<and>
   fst (executeQuery (sqlite_rejecting ''database is locked'') \<lparr>m_db = Some 0\<rparr>
          ''DELETE FROM test_table;'' world0) = False \<and>
   ''no such table: test_table'' \<noteq> ''database is locked''"
  by (simp add: executeQuery_def isConnected_def sqlite_rejecting_def SQLITE_OK_def)

text \<open>
  C5, amended. On a connected object \<open>executeQuery\<close> calls \<open>sqlite3_exec\<close> once, on
  the object's handle, and returns a \<open>bool\<close>: \<open>true\<close> when the engine returns
  \<open>SQLITE_OK\<close>, \<open>false\<close> otherwise. On rejection the engine's message is written to
  \<open>std::cerr\<close> after \<open>SQL error: \<close>; it is not part of what is returned. Nothing is
  thrown: the function has a result for every input.
\<close>

theorem executeQuery_connected:
  "m_db c = Some h \<Longrightarrow> sqlite3_exec env (length (exec_log w)) h query = (rc, errMsg) \<Longrightarrow>
   executeQuery env c query w =
     (rc = SQLITE_OK, c,
      w\<lparr>exec_log := exec_log w @ [(h, query)],
        out := out w @ [if rc = SQLITE_OK then Cout ''successful \<newline>''
                        else Cerr (''SQL error: '' @ errMsg)]\<rparr>)"
  by (simp add: executeQuery_def isConnected_def emit_def)

theorem executeQuery_connected_witness:
  "m_db \<lparr>m_db = Some 0\<rparr> = Some 0 \<and>
   sqlite3_exec (sqlite_rejecting ''database is locked'') (length (exec_log world0)) 0 ''DELETE FROM test_table;''
     = (1, ''database is locked'') \<and>
   executeQuery (sqlite_rejecting ''database is locked'') \<lparr>m_db = Some 0\<rparr>
       ''DELETE FROM test_table;'' world0 =
     (False, \<lparr>m_db = Some 0\<rparr>,
      \<lparr>open_calls = 0, exec_log = [(0, ''DELETE FROM test_table;'')], close_log = [],
       out = [Cerr ''SQL error: database is locked'']\<rparr>)"
proof -
  have a: "m_db \<lparr>m_db = Some 0\<rparr> = Some 0" by simp
  have b: "sqlite3_exec (sqlite_rejecting ''database is locked'') (length (exec_log world0)) 0
      ''DELETE FROM test_table;'' = (1, ''database is locked'')"
    by (simp add: sqlite_rejecting_def)
  from executeQuery_connected[OF a b] a b show ?thesis
    by (simp add: world0_def SQLITE_OK_def)
qed

text \<open>
  C9. \<open>isConnected\<close> is true exactly when \<open>m_db\<close> is not null; it takes the object and
  gives a \<open>bool\<close>, with no world or object returned. When \<open>sqlite3_open\<close> does not
  return \<open>SQLITE_OK\<close> the constructor leaves \<open>m_db\<close> null and the object not connected;
  and \<open>executeQuery\<close>, the only other member function, returns the object as it was,
  so it stays so.
\<close>

theorem handle_iff_connected:
  "(isConnected c \<longleftrightarrow> m_db c \<noteq> None) \<and>
   (fst (sqlite3_open env (open_calls w) dbFile) \<noteq> SQLITE_OK \<longrightarrow>
      m_db (fst (SQLiteDBConnection_new env dbFile w)) = None \<and>
      \<not> isConnected (fst (SQLiteDBConnection_new env dbFile w))) \<and>
   fst (snd (executeQuery env c query w)) = c"
  by (simp add: isConnected_def SQLiteDBConnection_new_def executeQuery_def Let_def
      split: prod.splits option.splits)

theorem handle_iff_connected_witness:
  "fst (sqlite3_open sqlite_down (open_calls world0) ''test.db'') \<noteq> SQLITE_OK \<and>
   m_db (fst (SQLiteDBConnection_new sqlite_down ''test.db'' world0)) = None \<and>
   \<not> isConnected (fst (SQLiteDBConnection_new sqlite_down ''test.db'' world0))"
proof -
  have a: "fst (sqlite3_open sqlite_down (open_calls world0) ''test.db'') \<noteq> SQLITE_OK"
    by (simp add: sqlite_down_def SQLITE_OK_def)
  from handle_iff_connected[of _ sqlite_down world0 "''test.db''"] a show ?thesis
    by blast
qed

section \<open>Round trips and order\<close>

lemma acquire_release_Cons:
  "m_connections (pool s) = a # q \<Longrightarrow>
   \<exists>s1. acquire_release s = Some s1 \<and> m_connections (pool s1) = q @ [a]"
  by (simp add: acquire_release_def getConnection_Cons releaseConnection_def push_def)

lemma round_trips_rotate:
  "m_connections (pool s) \<noteq> [] \<Longrightarrow>
   \<exists>s'. round_trips n s = Some s' \<and> m_connections (pool s') = rotate n (m_connections (pool s))"
proof (induction n arbitrary: s)
  case 0
  then show ?case by simp
next
  case (Suc n)
  then obtain a q where q: "m_connections (pool s) = a # q"
    by (cases "m_connections (pool s)") auto
  from acquire_release_Cons[OF q] obtain s1 where
    s1: "acquire_release s = Some s1" "m_connections (pool s1) = q @ [a]"
    by blast
  from s1(2) have "m_connections (pool s1) \<noteq> []" by simp
  from Suc.IH[OF this] obtain s' where
    "round_trips n s1 = Some s'" "m_connections (pool s') = rotate n (m_connections (pool s1))"
    by blast
  with s1 q show ?case
    by (simp add: rotate1_rotate_swap)
qed

text \<open>
  C6. From a state whose queue holds \<open>k \<ge> 1\<close> Resources, \<open>n\<close> rounds of
  \<open>getConnection\<close> followed at once by \<open>releaseConnection\<close> of what it returned, by
  one thread, all return, and leave \<open>k\<close> Resources in the queue, for every \<open>n\<close>.
\<close>

theorem round_trips_available:
  "length (m_connections (pool s)) = k \<Longrightarrow> 1 \<le> k \<Longrightarrow>
   \<exists>s'. round_trips n s = Some s' \<and> length (m_connections (pool s')) = k"
proof -
  assume k: "length (m_connections (pool s)) = k" "1 \<le> k"
  then have "m_connections (pool s) \<noteq> []" by auto
  from round_trips_rotate[OF this, of n] k show ?thesis
    by auto
qed

lemma opened_up: "opened sqlite_up ''test.db'' 0 2 = [0, 1]"
  by (simp add: opened_def open_ok_iff sqlite_up_def upt_conv_Cons)

lemma pool_up:
  "m_connections (pool (ConnectionPool_new sqlite_up ''test.db'' 2 start)) = [0, 1]"
  by (simp add: new_queue opened_up start_def world0_def)

theorem round_trips_available_witness:
  "length (m_connections (pool (ConnectionPool_new sqlite_up ''test.db'' 2 start))) = 2 \<and>
   (1::nat) \<le> 2 \<and>
   (\<exists>s'. round_trips 3 (ConnectionPool_new sqlite_up ''test.db'' 2 start) = Some s' \<and>
         length (m_connections (pool s')) = 2)"
proof -
  have a: "length (m_connections (pool (ConnectionPool_new sqlite_up ''test.db'' 2 start))) = 2"
    by (simp add: pool_up)
  have b: "(1::nat) \<le> 2" by simp
  from round_trips_available[OF a b, of 3] a b show ?thesis
    by blast
qed

lemma getConnection_Some:
  "getConnection s = Some (a, s1) \<Longrightarrow> m_connections (pool s) = a # m_connections (pool s1)"
  by (cases "m_connections (pool s)") (auto simp: getConnection_empty getConnection_Cons)

lemma run_ops_fifo:
  "run_ops s ops = Some (got, s') \<Longrightarrow>
   got @ m_connections (pool s') = m_connections (pool s) @ released ops"
proof (induction s ops arbitrary: got rule: run_ops.induct)
  case (1 s)
  then show ?case by simp
next
  case (2 s ops)
  from "2.prems" obtain a s1 got1 where
    g: "getConnection s = Some (a, s1)" and
    r: "run_ops s1 ops = Some (got1, s')" and
    got: "got = a # got1"
    by (auto split: option.splits)
  from "2.IH"[OF g refl r] getConnection_Some[OF g] got show ?case
    by simp
next
  case (3 s a ops)
  then show ?case
    by (simp add: releaseConnection_queue)
qed

lemma run_ops_returns:
  "enough (length (m_connections (pool s))) ops \<Longrightarrow>
   \<exists>s'. run_ops s ops =
          Some (take (acquires ops) (m_connections (pool s) @ released ops), s') \<and>
        m_connections (pool s') =
          drop (acquires ops) (m_connections (pool s) @ released ops)"
proof (induction s ops rule: run_ops.induct)
  case (1 s)
  then show ?case by simp
next
  case (2 s ops)
  from "2.prems" obtain a rest where q: "m_connections (pool s) = a # rest"
    by (cases "m_connections (pool s)") auto
  let ?s1 = "s\<lparr>pool := (pool s)\<lparr>m_connections := rest\<rparr>,
                wld := emit (Cout ''get connection successful \<newline>'') (wld s)\<rparr>"
  have g: "getConnection s = Some (a, ?s1)"
    by (rule getConnection_Cons[OF q])
  from "2.prems" q have "enough (length (m_connections (pool ?s1))) ops"
    by simp
  from "2.IH"[OF g refl this] obtain s' where
    "run_ops ?s1 ops = Some (take (acquires ops) (rest @ released ops), s')"
    "m_connections (pool s') = drop (acquires ops) (rest @ released ops)"
    by auto
  with g q show ?case by simp
next
  case (3 s a ops)
  from "3.prems" have "enough (length (m_connections (pool (releaseConnection a s)))) ops"
    by (simp add: releaseConnection_queue)
  from "3.IH"[OF this] show ?case
    by (simp add: releaseConnection_queue)
qed

lemma run_ops_blocks:
  "\<not> enough (length (m_connections (pool s))) ops \<Longrightarrow> run_ops s ops = None"
proof (induction s ops rule: run_ops.induct)
  case (1 s)
  then show ?case by simp
next
  case (2 s ops)
  show ?case
  proof (cases "m_connections (pool s)")
    case Nil
    then show ?thesis by (simp add: getConnection_empty)
  next
    case (Cons a rest)
    let ?s1 = "s\<lparr>pool := (pool s)\<lparr>m_connections := rest\<rparr>,
                wld := emit (Cout ''get connection successful \<newline>'') (wld s)\<rparr>"
    have g: "getConnection s = Some (a, ?s1)"
      by (rule getConnection_Cons[OF Cons])
    from "2.prems" Cons have "\<not> enough (length (m_connections (pool ?s1))) ops"
      by simp
    from "2.IH"[OF g refl this] g show ?thesis by simp
  qed
next
  case (3 s a ops)
  from "3.prems" have "\<not> enough (length (m_connections (pool (releaseConnection a s)))) ops"
    by (simp add: releaseConnection_queue)
  from "3.IH"[OF this] show ?case by simp
qed

text \<open>
  C10. The queue is first in, first out. On a non-empty queue \<open>getConnection\<close> returns,
  with the front of the queue, and removes it; on an empty queue it does not return.
  \<open>releaseConnection\<close> appends at the back. For every sequence of the two by one
  thread: when no acquire of the sequence finds the queue empty, every call returns,
  the Resources handed out are, in order, the first ones of the initial queue followed
  by the released ones, and the rest of that list is what is left in the queue; when
  some acquire finds the queue empty, the sequence does not get past it.
\<close>

theorem fifo_order:
  "(m_connections (pool s) = a # rest \<longrightarrow>
      (\<exists>s1. getConnection s = Some (a, s1) \<and> m_connections (pool s1) = rest)) \<and>
   (m_connections (pool s) = [] \<longrightarrow> getConnection s = None) \<and>
   m_connections (pool (releaseConnection b s)) = m_connections (pool s) @ [b] \<and>
   (enough (length (m_connections (pool s))) ops \<longrightarrow>
      (\<exists>s'. run_ops s ops =
              Some (take (acquires ops) (m_connections (pool s) @ released ops), s') \<and>
            m_connections (pool s') =
              drop (acquires ops) (m_connections (pool s) @ released ops))) \<and>
   (\<not> enough (length (m_connections (pool s))) ops \<longrightarrow> run_ops s ops = None) \<and>
   (run_ops s ops = Some (got, s') \<longrightarrow>
      got @ m_connections (pool s') = m_connections (pool s) @ released ops)"
proof -
  have 1: "m_connections (pool s) = a # rest \<longrightarrow>
      (\<exists>s1. getConnection s = Some (a, s1) \<and> m_connections (pool s1) = rest)"
    by (simp add: getConnection_Cons)
  have 2: "m_connections (pool s) = [] \<longrightarrow> getConnection s = None"
    by (simp add: getConnection_empty)
  have 3: "m_connections (pool (releaseConnection b s)) = m_connections (pool s) @ [b]"
    by (rule releaseConnection_queue)
  have 4: "enough (length (m_connections (pool s))) ops \<longrightarrow>
      (\<exists>s'. run_ops s ops =
              Some (take (acquires ops) (m_connections (pool s) @ released ops), s') \<and>
            m_connections (pool s') =
              drop (acquires ops) (m_connections (pool s) @ released ops))"
    using run_ops_returns by blast
  have 5: "\<not> enough (length (m_connections (pool s))) ops \<longrightarrow> run_ops s ops = None"
    using run_ops_blocks by blast
  have 6: "run_ops s ops = Some (got, s') \<longrightarrow>
      got @ m_connections (pool s') = m_connections (pool s) @ released ops"
    using run_ops_fifo by blast
  from 1 2 3 4 5 6 show ?thesis by blast
qed

lemma run_ops_acquires:
  "k \<le> length (m_connections (pool s)) \<Longrightarrow>
   \<exists>s'. run_ops s (replicate k Acquire) = Some (take k (m_connections (pool s)), s') \<and>
        m_connections (pool s') = drop k (m_connections (pool s))"
proof (induction k arbitrary: s)
  case 0
  then show ?case by simp
next
  case (Suc k)
  then obtain a q where q: "m_connections (pool s) = a # q"
    by (cases "m_connections (pool s)") auto
  let ?s1 = "s\<lparr>pool := (pool s)\<lparr>m_connections := q\<rparr>,
                wld := emit (Cout ''get connection successful \<newline>'') (wld s)\<rparr>"
  have g: "getConnection s = Some (a, ?s1)"
    by (rule getConnection_Cons[OF q])
  from Suc.prems q have "k \<le> length (m_connections (pool ?s1))" by simp
  from Suc.IH[OF this] obtain s' where
    "run_ops ?s1 (replicate k Acquire) = Some (take k (m_connections (pool ?s1)), s')"
    "m_connections (pool s') = drop k (m_connections (pool ?s1))"
    by blast
  with g q show ?case
    by simp
qed

theorem fifo_order_witness:
  "enough (length (m_connections (pool (ConnectionPool_new sqlite_up ''test.db'' 2 start))))
     [Acquire, Release 5, Acquire, Acquire] \<and>
   (\<exists>s'. run_ops (ConnectionPool_new sqlite_up ''test.db'' 2 start)
           [Acquire, Release 5, Acquire, Acquire] = Some ([0, 1, 5], s') \<and>
         m_connections (pool s') = []) \<and>
   \<not> enough (length (m_connections (pool (ConnectionPool_new sqlite_up ''test.db'' 2 start))))
     [Acquire, Acquire, Acquire] \<and>
   run_ops (ConnectionPool_new sqlite_up ''test.db'' 2 start) [Acquire, Acquire, Acquire] = None \<and>
   (\<exists>s1. getConnection (ConnectionPool_new sqlite_up ''test.db'' 2 start) = Some (0, s1) \<and>
         m_connections (pool s1) = [1])"
proof -
  let ?s = "ConnectionPool_new sqlite_up ''test.db'' 2 start"
  let ?ops = "[Acquire, Release 5, Acquire, Acquire]"
  let ?bad = "[Acquire, Acquire, Acquire]"
  have e: "enough (length (m_connections (pool ?s))) ?ops"
    by (simp add: pool_up)
  have n: "\<not> enough (length (m_connections (pool ?s))) ?bad"
    by (simp add: pool_up)
  have q: "m_connections (pool ?s) = 0 # [1]"
    by (simp add: pool_up)
  from fifo_order[of ?s 0 "[1]" _ ?ops] e
  have a: "\<exists>s'. run_ops ?s ?ops = Some ([0, 1, 5], s') \<and> m_connections (pool s') = []"
    by (simp add: pool_up)
  from fifo_order[of ?s 0 "[1]" _ ?bad] n
  have b: "run_ops ?s ?bad = None"
    by blast
  from fifo_order[of ?s 0 "[1]"] q
  have c: "\<exists>s1. getConnection ?s = Some (0, s1) \<and> m_connections (pool s1) = [1]"
    by blast
  from e a n b c show ?thesis by blast
qed

text \<open>
  C7. A call of \<open>executeQuery\<close> through a pointer that returns \<open>false\<close> changes the
  world (the streams, the log of exec calls) and nothing else: the pool, its queue and
  the store are as before. The Resource can then be released, which puts it at the
  back of the queue, and as many calls of \<open>getConnection\<close> as the queue has Resources
  all return, the last one with this Resource.
\<close>

theorem executeQuery_failure_isolated:
  "call_executeQuery env a query s = Some (False, s1) \<Longrightarrow>
   s1 = s\<lparr>wld := wld s1\<rparr> \<and>
   m_connections (pool (releaseConnection a s1)) = m_connections (pool s) @ [a] \<and>
   (\<exists>s2. run_ops (releaseConnection a s1)
            (replicate (Suc (length (m_connections (pool s)))) Acquire) =
          Some (m_connections (pool s) @ [a], s2))"
proof -
  assume c: "call_executeQuery env a query s = Some (False, s1)"
  then obtain c0 where c0: "objs s a = Some c0"
    by (auto simp: call_executeQuery_def split: option.splits)
  have same: "fst (snd (executeQuery env c0 query (wld s))) = c0"
    by (simp add: executeQuery_def Let_def split: option.splits prod.splits)
  from c c0 same have s1: "s1 = s\<lparr>wld := wld s1\<rparr>"
    by (auto simp: call_executeQuery_def fun_upd_idem split: prod.splits)
  then have p: "pool s1 = pool s"
    by (metis pstate.select_convs(3) pstate.surjective pstate.update_convs(4))
  have q: "m_connections (pool (releaseConnection a s1)) = m_connections (pool s) @ [a]"
    by (simp add: releaseConnection_queue p)
  from run_ops_acquires[of "Suc (length (m_connections (pool s)))" "releaseConnection a s1"] q
  have "\<exists>s2. run_ops (releaseConnection a s1)
            (replicate (Suc (length (m_connections (pool s)))) Acquire) =
          Some (m_connections (pool s) @ [a], s2)"
    by auto
  with s1 q show ?thesis by blast
qed

lemma pool_one:
  "ConnectionPool_new (sqlite_rejecting ''database is locked'') ''test.db'' 1 start =
     \<lparr>objs = [0 \<mapsto> \<lparr>m_db = Some 0\<rparr>], brk = 1,
      pool = \<lparr>m_dbFile = ''test.db'', m_poolSize = 1, m_connections = [0]\<rparr>,
      wld = \<lparr>open_calls = 1, exec_log = [], close_log = [], out = []\<rparr>\<rparr>"
  by (simp add: ConnectionPool_new_def initializePool_def initializePool_loop.simps
      initializePool_body_def SQLiteDBConnection_new_def sqlite_rejecting_def SQLITE_OK_def
      isConnected_def push_def start_def world0_def)

theorem executeQuery_failure_isolated_witness:
  "(\<exists>s s1 s2.
      getConnection (ConnectionPool_new (sqlite_rejecting ''database is locked'') ''test.db'' 1 start)
        = Some (0, s) \<and>
      call_executeQuery (sqlite_rejecting ''database is locked'') 0 ''DELETE FROM test_table;'' s
        = Some (False, s1) \<and>
      m_connections (pool s) = [] \<and>
      m_connections (pool (releaseConnection 0 s1)) = [0] \<and>
      run_ops (releaseConnection 0 s1) [Acquire] = Some ([0], s2))"
proof -
  let ?env = "sqlite_rejecting ''database is locked''"
  let ?S = "ConnectionPool_new ?env ''test.db'' 1 start"
  have "\<exists>s. getConnection ?S = Some (0, s) \<and> m_connections (pool s) = [] \<and>
          objs s 0 = Some \<lparr>m_db = Some 0\<rparr>"
    unfolding pool_one by (simp add: getConnection_Cons)
  then obtain s where g: "getConnection ?S = Some (0, s)" and q: "m_connections (pool s) = []"
    and o: "objs s 0 = Some \<lparr>m_db = Some 0\<rparr>"
    by blast
  have "\<exists>s1. call_executeQuery ?env 0 ''DELETE FROM test_table;'' s = Some (False, s1)"
    by (simp add: call_executeQuery_def o executeQuery_def isConnected_def
        sqlite_rejecting_def SQLITE_OK_def)
  then obtain s1 where
    c: "call_executeQuery ?env 0 ''DELETE FROM test_table;'' s = Some (False, s1)" ..
  from executeQuery_failure_isolated[OF c] q obtain s2 where
    "m_connections (pool (releaseConnection 0 s1)) = [0]"
    "run_ops (releaseConnection 0 s1) [Acquire] = Some ([0], s2)"
    by auto
  with g c q show ?thesis by blast
qed

section \<open>The mutex and the emptiness test\<close>

lemma goto_simps [simp]:
  "queue (goto t l s) = queue s"
  "mutex (goto t l s) = mutex s"
  "ub (goto t l s) = ub s"
  "length (threads (goto t l s)) = length (threads s)"
  by (simp_all add: goto_def)

lemma held_goto [simp]: "held (threads (goto t l s) ! u) = held (threads s ! u)"
proof (cases "t < length (threads s)")
  case True
  then show ?thesis by (cases "u = t") (simp_all add: goto_def)
next
  case False
  then show ?thesis by (simp add: goto_def list_update_beyond)
qed

lemma at_goto [simp]:
  "t < length (threads s) \<Longrightarrow> at (goto t l s) u = (if u = t then l else at s u)"
  by (simp add: goto_def at_def nth_list_update)

lemma give_simps [simp]:
  "queue (give t a s) = queue s"
  "mutex (give t a s) = mutex s"
  "ub (give t a s) = ub s"
  "length (threads (give t a s)) = length (threads s)"
  by (simp_all add: give_def)

lemma at_give [simp]: "at (give t a s) u = at s u"
proof (cases "t < length (threads s)")
  case True
  then show ?thesis by (cases "u = t") (simp_all add: give_def at_def)
next
  case False
  then show ?thesis by (simp add: give_def at_def list_update_beyond)
qed

lemma take_from_simps [simp]:
  "queue (take_from t a s) = queue s"
  "mutex (take_from t a s) = mutex s"
  "ub (take_from t a s) = ub s"
  "length (threads (take_from t a s)) = length (threads s)"
  by (simp_all add: take_from_def)

lemma at_take_from [simp]: "at (take_from t a s) u = at s u"
proof (cases "t < length (threads s)")
  case True
  then show ?thesis by (cases "u = t") (simp_all add: take_from_def at_def)
next
  case False
  then show ?thesis by (simp add: take_from_def at_def list_update_beyond)
qed

lemma at_upd [simp]:
  "at (s\<lparr>mutex := m\<rparr>) u = at s u"
  "at (s\<lparr>queue := q\<rparr>) u = at s u"
  "at (s\<lparr>ub := b\<rparr>) u = at s u"
  by (simp_all add: at_def)

lemma waiting_set: "u \<in> set (waiting s) \<longleftrightarrow> u < length (threads s) \<and> at s u = G_wait"
  by (auto simp: waiting_def)

lemma inv_lock_init: "inv_lock (cinit q n)"
  by (simp add: inv_lock_def thread_ok_def cinit_def at_def)

lemma needs_outside: "\<not> critical l \<Longrightarrow> needs l q"
  by (cases l) simp_all

lemma thread_ok_other:
  assumes "thread_ok s u" and "u \<noteq> t" and "at s' u = at s u"
    and "mutex s' = mutex s \<or> (mutex s = None \<and> mutex s' = Some t) \<or>
         (mutex s = Some t \<and> mutex s' = None)"
    and "queue s' = queue s \<or> mutex s = Some t"
  shows "thread_ok s' u"
proof -
  from assms(1) have c: "critical (at s u) \<longleftrightarrow> mutex s = Some u"
    and n: "needs (at s u) (queue s)"
    by (simp_all add: thread_ok_def)
  from c assms(2,4) have c': "critical (at s u) \<longleftrightarrow> mutex s' = Some u"
    by auto
  have "needs (at s u) (queue s')"
  proof (cases "queue s' = queue s")
    case True
    with n show ?thesis by simp
  next
    case False
    with assms(5) have "mutex s = Some t" by simp
    with c assms(2) have "\<not> critical (at s u)" by simp
    then show ?thesis by (rule needs_outside)
  qed
  with c' assms(3) show ?thesis
    by (simp add: thread_ok_def)
qed

lemma inv_lock_step_thread:
  assumes inv: "inv_lock s" and t: "t < length (threads s)"
    and len: "length (threads s') = length (threads s)"
    and ub: "\<not> ub s'"
    and others: "\<And>u. u \<noteq> t \<Longrightarrow> at s' u = at s u"
    and m: "mutex s' = mutex s \<or> (mutex s = None \<and> mutex s' = Some t) \<or>
         (mutex s = Some t \<and> mutex s' = None)"
    and q: "queue s' = queue s \<or> mutex s = Some t"
    and self: "thread_ok s' t"
  shows "inv_lock s'"
proof -
  have "thread_ok s' u" if "u < length (threads s')" for u
  proof (cases "u = t")
    case True
    with self show ?thesis by simp
  next
    case False
    from inv that len have "thread_ok s u" by (simp add: inv_lock_def)
    from thread_ok_other[OF this False others[OF False] m q] show ?thesis .
  qed
  with ub show ?thesis by (simp add: inv_lock_def)
qed

lemma inv_lock_run_thread:
  assumes inv: "inv_lock s" and t: "t < length (threads s)" and r: "run_thread t s = Some s'"
  shows "inv_lock s'"
proof -
  from inv t have ok: "thread_ok s t" and nub: "\<not> ub s"
    by (simp_all add: inv_lock_def)
  note step = inv_lock_step_thread[OF inv t]
  show ?thesis
  proof (cases "at s t")
    case Idle
    with r show ?thesis by (simp add: run_thread_def)
  next
    case G_lock
    with r have s': "s' = goto t G_while (s\<lparr>mutex := Some t\<rparr>)" and m: "mutex s = None"
      by (simp_all add: run_thread_def split: if_splits)
    show ?thesis
      by (rule step) (use t nub m in \<open>simp_all add: s' thread_ok_def\<close>)
  next
    case G_while
    with ok have m: "mutex s = Some t" by (simp add: thread_ok_def)
    show ?thesis
    proof (cases "queue s = []")
      case True
      with r G_while have s': "s' = goto t G_wait (s\<lparr>mutex := None\<rparr>)"
        by (simp add: run_thread_def)
      show ?thesis
        by (rule step) (use t nub m in \<open>simp_all add: s' thread_ok_def\<close>)
    next
      case False
      with r G_while have s': "s' = goto t G_front s"
        by (simp add: run_thread_def)
      show ?thesis
        by (rule step) (use t nub m False in \<open>simp_all add: s' thread_ok_def\<close>)
    qed
  next
    case G_wait
    with r show ?thesis by (simp add: run_thread_def)
  next
    case G_wake
    with r have s': "s' = goto t G_while (s\<lparr>mutex := Some t\<rparr>)" and m: "mutex s = None"
      by (simp_all add: run_thread_def split: if_splits)
    show ?thesis
      by (rule step) (use t nub m in \<open>simp_all add: s' thread_ok_def\<close>)
  next
    case G_front
    with ok have m: "mutex s = Some t" and ne: "queue s \<noteq> []"
      by (simp_all add: thread_ok_def)
    then obtain a rest where q: "queue s = a # rest"
      by (cases "queue s") auto
    with r G_front have s': "s' = goto t (G_pop a) s"
      by (simp add: run_thread_def)
    show ?thesis
      by (rule step) (use t nub m q in \<open>simp_all add: s' thread_ok_def\<close>)
  next
    case (G_pop a)
    with ok have m: "mutex s = Some t" and ne: "queue s \<noteq> []"
      by (simp_all add: thread_ok_def)
    then obtain b rest where q: "queue s = b # rest"
      by (cases "queue s") auto
    with r G_pop have s': "s' = goto t (G_return a) (s\<lparr>queue := rest\<rparr>)"
      by (simp add: run_thread_def)
    show ?thesis
      by (rule step) (use t nub m q in \<open>simp_all add: s' thread_ok_def\<close>)
  next
    case (G_return a)
    with ok have m: "mutex s = Some t" by (simp add: thread_ok_def)
    from r G_return have s': "s' = give t a (goto t Idle (s\<lparr>mutex := None\<rparr>))"
      by (simp add: run_thread_def)
    show ?thesis
      by (rule step) (use t nub m in \<open>simp_all add: s' thread_ok_def\<close>)
  next
    case (R_lock a)
    with r have s': "s' = goto t (R_push a) (s\<lparr>mutex := Some t\<rparr>)" and m: "mutex s = None"
      by (simp_all add: run_thread_def split: if_splits)
    show ?thesis
      by (rule step) (use t nub m in \<open>simp_all add: s' thread_ok_def\<close>)
  next
    case (R_push a)
    with ok have m: "mutex s = Some t" by (simp add: thread_ok_def)
    from r R_push have s': "s' = goto t R_notify (s\<lparr>queue := queue s @ [a]\<rparr>)"
      by (simp add: run_thread_def)
    show ?thesis
      by (rule step) (use t nub m in \<open>simp_all add: s' thread_ok_def\<close>)
  next
    case R_notify
    with r show ?thesis by (simp add: run_thread_def)
  next
    case R_return
    with ok have m: "mutex s = Some t" by (simp add: thread_ok_def)
    from r R_return have s': "s' = goto t Idle (s\<lparr>mutex := None\<rparr>)"
      by (simp add: run_thread_def)
    show ?thesis
      by (rule step) (use t nub m in \<open>simp_all add: s' thread_ok_def\<close>)
  qed
qed

lemma inv_lock_goto_outside:
  assumes inv: "inv_lock s" and t: "t < length (threads s)"
    and c: "\<not> critical (at s t)" "\<not> critical l"
  shows "inv_lock (goto t l s)"
proof (rule inv_lock_step_thread[OF inv t])
  from inv t have "thread_ok s t" by (simp add: inv_lock_def)
  with c t show "thread_ok (goto t l s) t"
    by (simp add: thread_ok_def needs_outside)
qed (use inv t in \<open>simp_all add: inv_lock_def\<close>)

lemma inv_lock_take_from: "inv_lock s \<Longrightarrow> inv_lock (take_from t a s)"
  by (simp add: inv_lock_def thread_ok_def)

lemma inv_lock_step:
  assumes inv: "inv_lock s" and st: "step s e = Some s'"
  shows "inv_lock s'"
proof (cases e)
  case (Call_get t)
  with st have t: "t < length (threads s)" and i: "at s t = Idle" and s': "s' = goto t G_lock s"
    by (simp_all add: step_def split: if_splits)
  show ?thesis unfolding s'
    by (rule inv_lock_goto_outside[OF inv t]) (simp_all add: i)
next
  case (Call_release t a)
  with st have t: "t < length (threads s)" and i: "at s t = Idle"
    and s': "s' = goto t (R_lock a) (take_from t a s)"
    by (simp_all add: step_def split: if_splits)
  show ?thesis unfolding s'
    by (rule inv_lock_goto_outside[OF inv_lock_take_from[OF inv]]) (simp_all add: t i)
next
  case (Run t)
  with st have "t < length (threads s)" "run_thread t s = Some s'"
    by (simp_all add: step_def split: if_splits)
  with inv show ?thesis by (rule inv_lock_run_thread)
next
  case (Notify_one t w)
  with st have t: "t < length (threads s)" and n: "at s t = R_notify"
    by (simp_all add: step_def split: if_splits)
  from inv t have ok: "thread_ok s t" by (simp add: inv_lock_def)
  have fin: "inv_lock (goto t R_return s1)"
    if i1: "inv_lock s1" and l1: "length (threads s1) = length (threads s)"
      and a1: "at s1 t = R_notify" for s1
  proof (rule inv_lock_step_thread[OF i1])
    from t l1 show t1: "t < length (threads s1)" by simp
    from i1 t1 have "thread_ok s1 t" by (simp add: inv_lock_def)
    with a1 t1 show "thread_ok (goto t R_return s1) t"
      by (simp add: thread_ok_def)
  qed (use i1 t l1 in \<open>simp_all add: inv_lock_def\<close>)
  show ?thesis
  proof (cases w)
    case None
    with st Notify_one have s': "s' = goto t R_return s"
      by (simp add: step_def split: if_splits)
    show ?thesis unfolding s' by (rule fin[OF inv refl n])
  next
    case (Some u)
    with st Notify_one have u: "u \<in> set (waiting s)"
      and s': "s' = goto t R_return (goto u G_wake s)"
      by (simp_all add: step_def split: if_splits)
    from u have ul: "u < length (threads s)" and uw: "at s u = G_wait"
      by (simp_all add: waiting_set)
    have i1: "inv_lock (goto u G_wake s)"
      by (rule inv_lock_goto_outside[OF inv ul]) (simp_all add: uw)
    from uw n have "u \<noteq> t" by auto
    with ul n have "at (goto u G_wake s) t = R_notify" by simp
    from fin[OF i1 _ this] show ?thesis unfolding s' by simp
  qed
next
  case (Spurious t)
  with st have t: "t < length (threads s)" and i: "at s t = G_wait" and s': "s' = goto t G_wake s"
    by (simp_all add: step_def split: if_splits)
  show ?thesis unfolding s'
    by (rule inv_lock_goto_outside[OF inv t]) (simp_all add: i)
qed

lemma inv_lock_run: "run s evs = Some s' \<Longrightarrow> inv_lock s \<Longrightarrow> inv_lock s'"
proof (induction evs arbitrary: s)
  case Nil
  then show ?case by simp
next
  case (Cons e evs)
  from Cons.prems(1) obtain s1 where s1: "step s e = Some s1" and r: "run s1 evs = Some s'"
    by (auto split: option.splits)
  from Cons.IH[OF r inv_lock_step[OF Cons.prems(2) s1]] show ?case .
qed

text \<open>
  C8. In every state the threads can reach, from any initial queue and under any
  schedule (spurious wake-ups and callers that release what they do not hold
  included), \<open>front\<close> and \<open>pop\<close> are never called on an empty queue: a thread past the
  loop, at \<open>front\<close> or at \<open>pop\<close>, finds the queue non-empty, and at \<open>pop\<close> the front is
  still the Resource it read. A woken thread, once it has the mutex again, is at the
  test of the loop; from the test it goes back to waiting when the queue is empty and
  on to \<open>front\<close> only when it is not; and the Resource \<open>getConnection\<close> returns is the
  one \<open>pop\<close> removed from the front.
\<close>

theorem getConnection_never_from_empty:
  "run (cinit q n) evs = Some s \<Longrightarrow>
   \<not> ub s \<and>
   (\<forall>t<length (threads s).
      (at s t = G_front \<longrightarrow> queue s \<noteq> []) \<and>
      (\<forall>a. at s t = G_pop a \<longrightarrow> queue s \<noteq> [] \<and> hd (queue s) = a) \<and>
      (\<forall>s'. step s (Run t) = Some s' \<longrightarrow>
         (at s t = G_wake \<longrightarrow> at s' t = G_while) \<and>
         (at s t = G_while \<longrightarrow> (if queue s = [] then at s' t = G_wait else at s' t = G_front)) \<and>
         (\<forall>a. at s t = G_pop a \<longrightarrow> queue s = a # queue s' \<and> at s' t = G_return a)))"
proof -
  assume r: "run (cinit q n) evs = Some s"
  have inv: "inv_lock s"
    by (rule inv_lock_run[OF r inv_lock_init])
  then have nub: "\<not> ub s" by (simp add: inv_lock_def)
  have "(at s t = G_front \<longrightarrow> queue s \<noteq> []) \<and>
      (\<forall>a. at s t = G_pop a \<longrightarrow> queue s \<noteq> [] \<and> hd (queue s) = a) \<and>
      (\<forall>s'. step s (Run t) = Some s' \<longrightarrow>
         (at s t = G_wake \<longrightarrow> at s' t = G_while) \<and>
         (at s t = G_while \<longrightarrow> (if queue s = [] then at s' t = G_wait else at s' t = G_front)) \<and>
         (\<forall>a. at s t = G_pop a \<longrightarrow> queue s = a # queue s' \<and> at s' t = G_return a))"
    if t: "t < length (threads s)" for t
  proof -
    from inv t have ok: "needs (at s t) (queue s)"
      by (simp add: inv_lock_def thread_ok_def)
    have 1: "at s t = G_front \<longrightarrow> queue s \<noteq> []"
      using ok by auto
    have 2: "\<forall>a. at s t = G_pop a \<longrightarrow> queue s \<noteq> [] \<and> hd (queue s) = a"
      using ok by auto
    have 3: "at s t = G_wake \<longrightarrow> at s' t = G_while" if "step s (Run t) = Some s'" for s'
      using that t nub by (auto simp: step_def run_thread_def split: if_splits)
    have 4: "at s t = G_while \<longrightarrow> (if queue s = [] then at s' t = G_wait else at s' t = G_front)"
      if "step s (Run t) = Some s'" for s'
      using that t nub by (auto simp: step_def run_thread_def split: if_splits)
    have 5: "\<forall>a. at s t = G_pop a \<longrightarrow> queue s = a # queue s' \<and> at s' t = G_return a"
      if "step s (Run t) = Some s'" for s'
    proof (intro allI impI)
      fix a assume a: "at s t = G_pop a"
      with 2 obtain rest where q: "queue s = a # rest"
        by (cases "queue s") auto
      with that t nub a show "queue s = a # queue s' \<and> at s' t = G_return a"
        by (auto simp: step_def run_thread_def)
    qed
    from 1 2 3 4 5 show ?thesis by blast
  qed
  with nub show ?thesis by blast
qed

section \<open>Who has which Resource\<close>

lemma concat_update:
  "t < length ts \<Longrightarrow>
   mset (concat (map f (ts[t := th]))) + mset (f (ts ! t)) = mset (concat (map f ts)) + mset (f th)"
proof (induction ts arbitrary: t)
  case Nil
  then show ?case by simp
next
  case (Cons x ts)
  show ?case
  proof (cases t)
    case 0
    then show ?thesis by simp
  next
    case (Suc t')
    with Cons.prems have "t' < length ts" by simp
    from Cons.IH[OF this] Suc show ?thesis
      by (simp add: add.assoc)
  qed
qed

lemma checked_out_update:
  assumes "t < length (threads s)" and "threads s' = (threads s)[t := th]"
  shows "mset (checked_out s') + mset (owned (threads s ! t)) = mset (checked_out s) + mset (owned th)"
  using concat_update[OF assms(1), of owned th] by (simp add: checked_out_def assms(2))

lemma inv_own_init: "inv_own q (cinit q n)"
  by (simp add: inv_own_def cinit_def checked_out_def owned_def)

lemma inv_own_thread:
  assumes own: "inv_own q0 s" and t: "t < length (threads s)"
    and th: "threads s' = (threads s)[t := th]"
    and bal: "mset (queue s') + mset (owned th) = mset (queue s) + mset (owned (threads s ! t))"
  shows "inv_own q0 s'"
proof -
  let ?O = "mset (owned (threads s ! t))"
  from checked_out_update[OF t th]
  have co: "mset (checked_out s') + ?O = mset (checked_out s) + mset (owned th)" .
  have "(mset (queue s') + mset (checked_out s')) + ?O
      = mset (queue s') + (mset (checked_out s') + ?O)"
    by (simp add: add.assoc)
  also have "\<dots> = mset (queue s') + (mset (checked_out s) + mset (owned th))"
    by (simp only: co)
  also have "\<dots> = (mset (queue s') + mset (owned th)) + mset (checked_out s)"
    by (simp add: ac_simps)
  also have "\<dots> = (mset (queue s) + ?O) + mset (checked_out s)"
    by (simp only: bal)
  also have "\<dots> = (mset (queue s) + mset (checked_out s)) + ?O"
    by (simp add: ac_simps)
  finally have "mset (queue s') + mset (checked_out s') = mset (queue s) + mset (checked_out s)"
    by (simp only: add_right_cancel)
  with own show ?thesis by (simp add: inv_own_def)
qed

lemma inv_own_mutex [simp]: "inv_own q0 (s\<lparr>mutex := m\<rparr>) = inv_own q0 s"
  by (simp add: inv_own_def checked_out_def)

lemma inv_own_goto:
  assumes own: "inv_own q0 s" and t: "t < length (threads s)"
    and fl: "in_flight l = in_flight (at s t)"
  shows "inv_own q0 (goto t l s)"
  by (rule inv_own_thread[OF own t, where th = "(threads s ! t)\<lparr>pc := l\<rparr>"])
     (simp_all add: goto_def owned_def fl[unfolded at_def])

lemma inv_own_run_thread:
  assumes lock: "inv_lock s" and own: "inv_own q0 s" and t: "t < length (threads s)"
    and r: "run_thread t s = Some s'"
  shows "inv_own q0 s'"
proof -
  from lock t have ok: "thread_ok s t"
    by (simp add: inv_lock_def)
  have own_m: "inv_own q0 (s\<lparr>mutex := m\<rparr>)" for m
    using own by simp
  have t_m: "t < length (threads (s\<lparr>mutex := m\<rparr>))" for m
    using t by simp
  show ?thesis
  proof (cases "at s t")
    case Idle
    with r show ?thesis by (simp add: run_thread_def)
  next
    case G_lock
    with r have s': "s' = goto t G_while (s\<lparr>mutex := Some t\<rparr>)"
      by (simp add: run_thread_def split: if_splits)
    show ?thesis unfolding s'
      by (rule inv_own_goto[OF own_m t_m]) (simp add: G_lock)
  next
    case G_while
    show ?thesis
    proof (cases "queue s = []")
      case True
      with r G_while have s': "s' = goto t G_wait (s\<lparr>mutex := None\<rparr>)"
        by (simp add: run_thread_def)
      show ?thesis unfolding s'
        by (rule inv_own_goto[OF own_m t_m]) (simp add: G_while)
    next
      case False
      with r G_while have s': "s' = goto t G_front s"
        by (simp add: run_thread_def)
      show ?thesis unfolding s'
        by (rule inv_own_goto[OF own t]) (simp add: G_while)
    qed
  next
    case G_wait
    with r show ?thesis by (simp add: run_thread_def)
  next
    case G_wake
    with r have s': "s' = goto t G_while (s\<lparr>mutex := Some t\<rparr>)"
      by (simp add: run_thread_def split: if_splits)
    show ?thesis unfolding s'
      by (rule inv_own_goto[OF own_m t_m]) (simp add: G_wake)
  next
    case G_front
    with ok have "queue s \<noteq> []" by (simp add: thread_ok_def)
    then obtain a rest where q: "queue s = a # rest"
      by (cases "queue s") auto
    with r G_front have s': "s' = goto t (G_pop a) s"
      by (simp add: run_thread_def)
    show ?thesis unfolding s'
      by (rule inv_own_goto[OF own t]) (simp add: G_front)
  next
    case (G_pop a)
    with ok have "queue s \<noteq> []" "hd (queue s) = a" by (simp_all add: thread_ok_def)
    then obtain rest where q: "queue s = a # rest"
      by (cases "queue s") auto
    with r G_pop have s': "s' = goto t (G_return a) (s\<lparr>queue := rest\<rparr>)"
      by (simp add: run_thread_def)
    from G_pop have pc: "pc (threads s ! t) = G_pop a" by (simp add: at_def)
    show ?thesis
      by (rule inv_own_thread[OF own t, where th = "(threads s ! t)\<lparr>pc := G_return a\<rparr>"])
         (simp_all add: s' goto_def owned_def q pc)
  next
    case (G_return a)
    with r have s': "s' = give t a (goto t Idle (s\<lparr>mutex := None\<rparr>))"
      by (simp add: run_thread_def)
    from G_return have pc: "pc (threads s ! t) = G_return a" by (simp add: at_def)
    show ?thesis
      by (rule inv_own_thread[OF own t,
            where th = "(threads s ! t)\<lparr>pc := Idle, held := held (threads s ! t) @ [a]\<rparr>"])
         (use t in \<open>simp_all add: s' goto_def give_def owned_def pc\<close>)
  next
    case (R_lock a)
    with r have s': "s' = goto t (R_push a) (s\<lparr>mutex := Some t\<rparr>)"
      by (simp add: run_thread_def split: if_splits)
    show ?thesis unfolding s'
      by (rule inv_own_goto[OF own_m t_m]) (simp add: R_lock)
  next
    case (R_push a)
    with r have s': "s' = goto t R_notify (s\<lparr>queue := queue s @ [a]\<rparr>)"
      by (simp add: run_thread_def)
    from R_push have pc: "pc (threads s ! t) = R_push a" by (simp add: at_def)
    show ?thesis
      by (rule inv_own_thread[OF own t, where th = "(threads s ! t)\<lparr>pc := R_notify\<rparr>"])
         (simp_all add: s' goto_def owned_def pc)
  next
    case R_notify
    with r show ?thesis by (simp add: run_thread_def)
  next
    case R_return
    with r have s': "s' = goto t Idle (s\<lparr>mutex := None\<rparr>)"
      by (simp add: run_thread_def)
    show ?thesis unfolding s'
      by (rule inv_own_goto[OF own_m t_m]) (simp add: R_return)
  qed
qed

lemma inv_own_step:
  assumes lock: "inv_lock s" and own: "inv_own q0 s" and st: "step s e = Some s'"
    and perm: "permitted s e"
  shows "inv_own q0 s'"
proof (cases e)
  case (Call_get t)
  with st have t: "t < length (threads s)" and i: "at s t = Idle" and s': "s' = goto t G_lock s"
    by (simp_all add: step_def split: if_splits)
  show ?thesis unfolding s'
    by (rule inv_own_goto[OF own t]) (simp add: i)
next
  case (Call_release t a)
  with st have t: "t < length (threads s)" and i: "at s t = Idle"
    and s': "s' = goto t (R_lock a) (take_from t a s)"
    by (simp_all add: step_def split: if_splits)
  from perm Call_release have a: "a \<in> set (held (threads s ! t))" by simp
  from i have pc: "pc (threads s ! t) = Idle" by (simp add: at_def)
  show ?thesis
    by (rule inv_own_thread[OF own t,
          where th = "(threads s ! t)\<lparr>held := remove1 a (held (threads s ! t)), pc := R_lock a\<rparr>"])
       (use t a in \<open>simp_all add: s' goto_def take_from_def owned_def pc\<close>)
next
  case (Run t)
  with st have "t < length (threads s)" "run_thread t s = Some s'"
    by (simp_all add: step_def split: if_splits)
  with lock own show ?thesis by (rule inv_own_run_thread)
next
  case (Notify_one t w)
  with st have t: "t < length (threads s)" and n: "at s t = R_notify"
    by (simp_all add: step_def split: if_splits)
  show ?thesis
  proof (cases w)
    case None
    with st Notify_one have s': "s' = goto t R_return s"
      by (simp add: step_def split: if_splits)
    show ?thesis unfolding s'
      by (rule inv_own_goto[OF own t]) (simp add: n)
  next
    case (Some u)
    with st Notify_one have u: "u \<in> set (waiting s)"
      and s': "s' = goto t R_return (goto u G_wake s)"
      by (simp_all add: step_def split: if_splits)
    from u have ul: "u < length (threads s)" and uw: "at s u = G_wait"
      by (simp_all add: waiting_set)
    have o1: "inv_own q0 (goto u G_wake s)"
      by (rule inv_own_goto[OF own ul]) (simp add: uw)
    from uw n have "u \<noteq> t" by auto
    with ul n have a1: "at (goto u G_wake s) t = R_notify" by simp
    show ?thesis unfolding s'
      by (rule inv_own_goto[OF o1]) (simp_all add: t a1)
  qed
next
  case (Spurious t)
  with st have t: "t < length (threads s)" and i: "at s t = G_wait" and s': "s' = goto t G_wake s"
    by (simp_all add: step_def split: if_splits)
  show ?thesis unfolding s'
    by (rule inv_own_goto[OF own t]) (simp add: i)
qed

lemma inv_own_run:
  "run s evs = Some s' \<Longrightarrow> disciplined s evs \<Longrightarrow> inv_lock s \<Longrightarrow> inv_own q0 s \<Longrightarrow>
   inv_own q0 s'"
proof (induction evs arbitrary: s)
  case Nil
  then show ?case by simp
next
  case (Cons e evs)
  from Cons.prems(1) obtain s1 where s1: "step s e = Some s1" and r: "run s1 evs = Some s'"
    by (auto split: option.splits)
  from Cons.prems(2) s1 have p: "permitted s e" and d: "disciplined s1 evs"
    by simp_all
  from Cons.IH[OF r d inv_lock_step[OF Cons.prems(3) s1]
      inv_own_step[OF Cons.prems(3,4) s1 p]]
  show ?case .
qed

lemma distinct_concat_nth:
  "distinct (concat xss) \<Longrightarrow> i < length xss \<Longrightarrow> j < length xss \<Longrightarrow> i \<noteq> j \<Longrightarrow>
   set (xss ! i) \<inter> set (xss ! j) = {}"
proof (induction xss arbitrary: i j)
  case Nil
  then show ?case by simp
next
  case (Cons x xss)
  show ?case
  proof (cases i)
    case 0
    with Cons.prems obtain j' where j: "j = Suc j'" "j' < length xss"
      by (cases j) auto
    then have "set (xss ! j') \<subseteq> \<Union> (set ` set xss)"
      using nth_mem[of j' xss] by blast
    with Cons.prems(1) 0 j show ?thesis by auto
  next
    case (Suc i')
    show ?thesis
    proof (cases j)
      case 0
      from Suc Cons.prems have "set (xss ! i') \<subseteq> \<Union> (set ` set xss)"
        using nth_mem[of i' xss] by auto
      with Cons.prems(1) 0 Suc show ?thesis by auto
    next
      case (Suc j')
      with \<open>i = Suc i'\<close> Cons.prems Cons.IH[of i' j'] show ?thesis by simp
    qed
  qed
qed

lemma run_constructed:
  assumes r: "run (cinit q n) evs = Some s" and d: "disciplined (cinit q n) evs"
  shows "mset (queue s) + mset (checked_out s) = mset q"
  using inv_own_run[OF r d inv_lock_init inv_own_init] by (simp add: inv_own_def)

text \<open>
  C1, amended. After the constructor, under any schedule of any number of threads in
  which every call of \<open>releaseConnection\<close> passes a Resource the calling thread holds
  (one \<open>getConnection\<close> returned to it and it has not released since), in every
  reachable state the number of Resources in the queue plus the number checked out is
  the number of opens that succeeded at construction, which is at most \<open>poolSize\<close>.
\<close>

theorem pool_count_invariant:
  assumes r: "run (cinit (m_connections (pool (ConnectionPool_new env dbFile poolSize s0))) n) evs
                = Some s"
    and d: "disciplined (cinit (m_connections (pool (ConnectionPool_new env dbFile poolSize s0))) n)
              evs"
  shows "available_count s + checked_out_count s =
           length (opened env dbFile (open_calls (wld s0)) poolSize) \<and>
         length (opened env dbFile (open_calls (wld s0)) poolSize) \<le> poolSize"
proof -
  let ?q = "m_connections (pool (ConnectionPool_new env dbFile poolSize s0))"
  from run_constructed[OF r d]
  have "size (mset (queue s) + mset (checked_out s)) = size (mset ?q)"
    by simp
  then have "available_count s + checked_out_count s = length ?q"
    by (simp add: available_count_def checked_out_count_def)
  moreover have "length ?q = length (opened env dbFile (open_calls (wld s0)) poolSize)"
    by (simp add: new_queue)
  moreover have "length ?q \<le> poolSize"
    by (rule new_length)
  ultimately show ?thesis by simp
qed

text \<open>
  C2, amended. After the constructor, under any schedule of any number of threads in
  which every call of \<open>releaseConnection\<close> passes a Resource the calling thread holds,
  no Resource is in two places in any reachable state: not twice in the queue, not in
  the queue and with a thread, and not with two threads, where what a thread has is
  what its caller holds and what its call of \<open>getConnection\<close> is about to return. So
  two calls of \<open>getConnection\<close> whose results are held at the same time returned
  different Resources.
\<close>

theorem no_shared_resource:
  assumes r: "run (cinit (m_connections (pool (ConnectionPool_new env dbFile poolSize s0))) n) evs
                = Some s"
    and d: "disciplined (cinit (m_connections (pool (ConnectionPool_new env dbFile poolSize s0))) n)
              evs"
  shows "distinct (queue s @ checked_out s) \<and>
         (\<forall>t<length (threads s). \<forall>u<length (threads s). t \<noteq> u \<longrightarrow>
            set (owned (threads s ! t)) \<inter> set (owned (threads s ! u)) = {})"
proof -
  let ?q = "m_connections (pool (ConnectionPool_new env dbFile poolSize s0))"
  from run_constructed[OF r d] have "mset (queue s @ checked_out s) = mset ?q"
    by simp
  from mset_eq_imp_distinct_iff[OF this] new_distinct[of env dbFile poolSize s0]
  have dist: "distinct (queue s @ checked_out s)"
    by simp
  then have dc: "distinct (concat (map owned (threads s)))"
    by (simp add: checked_out_def)
  have "set (owned (threads s ! t)) \<inter> set (owned (threads s ! u)) = {}"
    if "t < length (threads s)" "u < length (threads s)" "t \<noteq> u" for t u
    using distinct_concat_nth[OF dc, of t u] that by simp
  with dist show ?thesis by blast
qed

lemmas ev = step_def run_thread_def goto_def give_def take_from_def at_def waiting_def cinit_def
  acquire_events_def release_events_def both_acquire_def

lemma pool_up1:
  "m_connections (pool (ConnectionPool_new sqlite_up ''test.db'' 1 start)) = [0]"
  by (simp add: new_queue opened_def open_ok_iff sqlite_up_def start_def world0_def)

text \<open>
  C1, as stated, for any sequence of the two operations: a thread that acquires the
  only Resource of a pool and releases it twice (the caller still has its copy of the
  pointer after the first release) leaves two entries in the queue and nothing checked
  out, with one Resource opened.
\<close>

theorem pool_count_counterexample:
  "run (cinit (m_connections (pool (ConnectionPool_new sqlite_up ''test.db'' 1 start))) 1)
       (acquire_events 0 @ release_events 0 0 @ release_events 0 0) =
     Some \<lparr>queue = [0, 0], mutex = None, threads = [\<lparr>pc = Idle, held = []\<rparr>], ub = False\<rparr> \<and>
   available_count
     \<lparr>queue = [0, 0], mutex = None, threads = [\<lparr>pc = Idle, held = []\<rparr>], ub = False\<rparr> +
   checked_out_count
     \<lparr>queue = [0, 0], mutex = None, threads = [\<lparr>pc = Idle, held = []\<rparr>], ub = False\<rparr> = 2 \<and>
   length (opened sqlite_up ''test.db'' (open_calls (wld start)) 1) = 1"
  unfolding pool_up1
  by (simp add: ev available_count_def checked_out_count_def checked_out_def owned_def
      opened_def open_ok_iff sqlite_up_def)

text \<open>
  C2, as stated, for any two calls: after the same double release, two calls of
  \<open>getConnection\<close> by two threads, in progress at the same time, both return, with
  the same Resource, and both threads hold it.
\<close>

theorem no_shared_resource_counterexample:
  "run (cinit (m_connections (pool (ConnectionPool_new sqlite_up ''test.db'' 1 start))) 2)
       (acquire_events 0 @ release_events 0 0 @ release_events 0 0 @ both_acquire) =
     Some \<lparr>queue = [], mutex = None,
           threads = [\<lparr>pc = Idle, held = [0]\<rparr>, \<lparr>pc = Idle, held = [0]\<rparr>], ub = False\<rparr>"
  unfolding pool_up1
  by (simp add: ev eval_nat_numeral)

theorem pool_count_invariant_witness:
  "run (cinit (m_connections (pool (ConnectionPool_new sqlite_up ''test.db'' 2 start))) 2)
       (acquire_events 0 @ acquire_events 1 @ release_events 0 0) =
     Some \<lparr>queue = [0], mutex = None,
           threads = [\<lparr>pc = Idle, held = []\<rparr>, \<lparr>pc = Idle, held = [1]\<rparr>], ub = False\<rparr> \<and>
   disciplined (cinit (m_connections (pool (ConnectionPool_new sqlite_up ''test.db'' 2 start))) 2)
       (acquire_events 0 @ acquire_events 1 @ release_events 0 0) \<and>
   available_count \<lparr>queue = [0], mutex = None,
           threads = [\<lparr>pc = Idle, held = []\<rparr>, \<lparr>pc = Idle, held = [1]\<rparr>], ub = False\<rparr> +
   checked_out_count \<lparr>queue = [0], mutex = None,
           threads = [\<lparr>pc = Idle, held = []\<rparr>, \<lparr>pc = Idle, held = [1]\<rparr>], ub = False\<rparr> =
     length (opened sqlite_up ''test.db'' (open_calls (wld start)) 2) \<and>
   length (opened sqlite_up ''test.db'' (open_calls (wld start)) 2) \<le> 2"
proof -
  let ?Q = "m_connections (pool (ConnectionPool_new sqlite_up ''test.db'' 2 start))"
  let ?E = "acquire_events 0 @ acquire_events 1 @ release_events 0 0"
  let ?S = "\<lparr>queue = [0], mutex = None,
           threads = [\<lparr>pc = Idle, held = []\<rparr>, \<lparr>pc = Idle, held = [1]\<rparr>], ub = False\<rparr>"
  have r: "run (cinit ?Q 2) ?E = Some ?S"
    unfolding pool_up by (simp add: ev eval_nat_numeral)
  have d: "disciplined (cinit ?Q 2) ?E"
    unfolding pool_up by (simp add: ev eval_nat_numeral)
  from pool_count_invariant[OF r d] r d show ?thesis
    by blast
qed

theorem no_shared_resource_witness:
  "run (cinit (m_connections (pool (ConnectionPool_new sqlite_up ''test.db'' 2 start))) 2)
       both_acquire =
     Some \<lparr>queue = [], mutex = None,
           threads = [\<lparr>pc = Idle, held = [0]\<rparr>, \<lparr>pc = Idle, held = [1]\<rparr>], ub = False\<rparr> \<and>
   disciplined (cinit (m_connections (pool (ConnectionPool_new sqlite_up ''test.db'' 2 start))) 2)
       both_acquire \<and>
   set (owned \<lparr>pc = Idle, held = [0]\<rparr>) \<inter> set (owned \<lparr>pc = Idle, held = [1]\<rparr>) = {}"
proof -
  let ?Q = "m_connections (pool (ConnectionPool_new sqlite_up ''test.db'' 2 start))"
  let ?E = "both_acquire"
  let ?S = "\<lparr>queue = [], mutex = None,
           threads = [\<lparr>pc = Idle, held = [0]\<rparr>, \<lparr>pc = Idle, held = [1]\<rparr>], ub = False\<rparr>"
  have r: "run (cinit ?Q 2) ?E = Some ?S"
    unfolding pool_up by (simp add: ev eval_nat_numeral)
  have d: "disciplined (cinit ?Q 2) ?E"
    unfolding pool_up by (simp add: ev eval_nat_numeral)
  from no_shared_resource[OF r d]
  have "\<forall>t<length (threads ?S). \<forall>u<length (threads ?S). t \<noteq> u \<longrightarrow>
            set (owned (threads ?S ! t)) \<inter> set (owned (threads ?S ! u)) = {}"
    by blast
  from this[rule_format, of 0 1]
  have "set (owned \<lparr>pc = Idle, held = [0]\<rparr>) \<inter> set (owned \<lparr>pc = Idle, held = [1]\<rparr>) = {}"
    by simp
  with r d show ?thesis by blast
qed

theorem getConnection_never_from_empty_witness:
  "run (cinit [0] 2) woken_for_nothing =
     Some \<lparr>queue = [], mutex = None,
           threads = [\<lparr>pc = G_wake, held = []\<rparr>, \<lparr>pc = Idle, held = [0]\<rparr>], ub = False\<rparr> \<and>
   step \<lparr>queue = [], mutex = None,
         threads = [\<lparr>pc = G_wake, held = []\<rparr>, \<lparr>pc = Idle, held = [0]\<rparr>], ub = False\<rparr> (Run 0) =
     Some \<lparr>queue = [], mutex = Some 0,
           threads = [\<lparr>pc = G_while, held = []\<rparr>, \<lparr>pc = Idle, held = [0]\<rparr>], ub = False\<rparr> \<and>
   run (cinit [0] 2) handed_over =
     Some \<lparr>queue = [0], mutex = Some 0,
           threads = [\<lparr>pc = G_pop 0, held = []\<rparr>, \<lparr>pc = Idle, held = []\<rparr>], ub = False\<rparr> \<and>
   step \<lparr>queue = [0], mutex = Some 0,
         threads = [\<lparr>pc = G_pop 0, held = []\<rparr>, \<lparr>pc = Idle, held = []\<rparr>], ub = False\<rparr> (Run 0) =
     Some \<lparr>queue = [], mutex = Some 0,
           threads = [\<lparr>pc = G_return 0, held = []\<rparr>, \<lparr>pc = Idle, held = []\<rparr>], ub = False\<rparr> \<and>
   at \<lparr>queue = [], mutex = Some 0,
       threads = [\<lparr>pc = G_while, held = []\<rparr>, \<lparr>pc = Idle, held = [0]\<rparr>], ub = False\<rparr> 0 = G_while \<and>
   hd (queue \<lparr>queue = [0], mutex = Some 0,
           threads = [\<lparr>pc = G_pop 0, held = []\<rparr>, \<lparr>pc = Idle, held = []\<rparr>], ub = False\<rparr>) = 0"
proof -
  let ?A = "\<lparr>queue = [], mutex = None,
           threads = [\<lparr>pc = G_wake, held = []\<rparr>, \<lparr>pc = Idle, held = [0]\<rparr>], ub = False\<rparr>"
  let ?A' = "\<lparr>queue = [], mutex = Some 0,
           threads = [\<lparr>pc = G_while, held = []\<rparr>, \<lparr>pc = Idle, held = [0]\<rparr>], ub = False\<rparr>"
  let ?B = "\<lparr>queue = [0], mutex = Some 0,
           threads = [\<lparr>pc = G_pop 0, held = []\<rparr>, \<lparr>pc = Idle, held = []\<rparr>], ub = False\<rparr>"
  let ?B' = "\<lparr>queue = [], mutex = Some 0,
           threads = [\<lparr>pc = G_return 0, held = []\<rparr>, \<lparr>pc = Idle, held = []\<rparr>], ub = False\<rparr>"
  have ra: "run (cinit [0] 2) woken_for_nothing = Some ?A"
    by (simp add: woken_for_nothing_def ev eval_nat_numeral)
  have sa: "step ?A (Run 0) = Some ?A'"
    by (simp add: ev)
  have rb: "run (cinit [0] 2) handed_over = Some ?B"
    by (simp add: handed_over_def woken_for_nothing_def ev eval_nat_numeral)
  have sb: "step ?B (Run 0) = Some ?B'"
    by (simp add: ev)
  have la: "0 < length (threads ?A)" and aa: "at ?A 0 = G_wake"
    by (simp_all add: at_def)
  have lb: "0 < length (threads ?B)" and ab: "at ?B 0 = G_pop 0"
    by (simp_all add: at_def)
  from getConnection_never_from_empty[OF ra] la aa sa
  have 1: "at ?A' 0 = G_while"
    by blast
  from getConnection_never_from_empty[OF rb] lb ab
  have 2: "hd (queue ?B) = 0"
    by blast
  from ra sa rb sb 1 2 show ?thesis by blast
qed

section \<open>The thread model and the functions of one thread\<close>

text \<open>
  With one thread the model of threads and the functions \<open>getConnection\<close> and
  \<open>releaseConnection\<close> of the single-thread model agree: on a non-empty queue the
  thread returns with the front of the queue, on an empty one it never returns,
  however often it is woken, and a release appends at the back.
\<close>

lemma blocked_step:
  assumes "s \<in> set blocked" and "step s e = Some s'" and "\<not> is_release e"
  shows "s' \<in> set blocked"
proof (cases e)
  case (Call_get t)
  with assms show ?thesis
    by (auto simp: blocked_def alone_def ev split: if_splits)
next
  case (Call_release t a)
  with assms show ?thesis by simp
next
  case (Run t)
  with assms show ?thesis
    by (auto simp: blocked_def alone_def ev split: if_splits)
next
  case (Notify_one t w)
  with assms show ?thesis
    by (auto simp: blocked_def alone_def ev split: if_splits)
next
  case (Spurious t)
  with assms show ?thesis
    by (auto simp: blocked_def alone_def ev split: if_splits)
qed

lemma blocked_run:
  "run s evs = Some s' \<Longrightarrow> s \<in> set blocked \<Longrightarrow> \<forall>e\<in>set evs. \<not> is_release e \<Longrightarrow>
   s' \<in> set blocked"
proof (induction evs arbitrary: s)
  case Nil
  then show ?case by simp
next
  case (Cons e evs)
  from Cons.prems(1) obtain s1 where s1: "step s e = Some s1" and r: "run s1 evs = Some s'"
    by (auto split: option.splits)
  from Cons.prems(3) have "\<not> is_release e" "\<forall>e\<in>set evs. \<not> is_release e"
    by simp_all
  with Cons.IH[OF r blocked_step[OF Cons.prems(2) s1]] show ?case by simp
qed

lemma alone_never_returns:
  assumes "run (cinit [] 1) evs = Some s" and "\<forall>e\<in>set evs. \<not> is_release e"
  shows "held (threads s ! 0) = [] \<and> queue s = []"
proof -
  have "cinit [] 1 \<in> set blocked"
    by (simp add: blocked_def alone_def cinit_def)
  from blocked_run[OF assms(1) this assms(2)] show ?thesis
    by (auto simp: blocked_def alone_def)
qed

lemma alone_getConnection:
  assumes "m_connections (pool s) = a # rest"
  shows "run (cinit (m_connections (pool s)) 1) (acquire_events 0) =
           Some \<lparr>queue = rest, mutex = None, threads = [\<lparr>pc = Idle, held = [a]\<rparr>], ub = False\<rparr> \<and>
         (\<exists>s1. getConnection s = Some (a, s1) \<and> m_connections (pool s1) = rest)"
  by (simp add: assms ev getConnection_Cons)

lemma alone_releaseConnection:
  "run \<lparr>queue = m_connections (pool s), mutex = None,
        threads = [\<lparr>pc = Idle, held = [a]\<rparr>], ub = False\<rparr> (release_events 0 a) =
     Some \<lparr>queue = m_connections (pool (releaseConnection a s)), mutex = None,
           threads = [\<lparr>pc = Idle, held = []\<rparr>], ub = False\<rparr>"
  by (simp add: ev releaseConnection_queue)

end
